theory Spec2Isabelle
  imports Main "HOL-Library.Word"
begin

unbundle bit_operations_syntax

section \<open>Common data\<close>

text \<open>
  A \<open>Uint8Array\<close> is a list of bytes.  A JavaScript argument that may fail the test
  \<open>x instanceof Uint8Array\<close> is a \<open>bytes option\<close>: \<open>None\<close> stands for every value that
  is not a \<open>Uint8Array\<close> (\<open>null\<close>, \<open>undefined\<close>, a string, a number, a plain object).
  The three exception classes the code throws are the three values of \<open>error\<close>; a
  function that can throw returns \<open>error + 'a\<close>.
\<close>

type_synonym byte = "8 word"
type_synonym bytes = "byte list"

datatype error = TypeError | RangeError | GenericError

section \<open>crypto/HMACSigner.ts\<close>

text \<open>
  \<open>crypto.createHmac("sha256", secret).update(payload).digest()\<close> belongs to the Node.js
  runtime, not to the repository.  It is a parameter \<open>hmac\<close> of the model, taking the key
  and the message to the digest.
\<close>

type_synonym hmac_fn = "bytes \<Rightarrow> bytes \<Rightarrow> bytes"

definition SIGNATURE_BYTES :: nat where
  "SIGNATURE_BYTES = 7"

definition MIN_SECRET_BYTES :: nat where
  "MIN_SECRET_BYTES = 32"

definition MIN_PAYLOAD_BYTES :: nat where
  "MIN_PAYLOAD_BYTES = 1"

definition validatePayload :: "bytes option \<Rightarrow> error + bytes" where
  "validatePayload payload =
     (case payload of
        None \<Rightarrow> Inl TypeError
      | Some p \<Rightarrow> if length p < MIN_PAYLOAD_BYTES then Inl RangeError else Inr p)"

definition validateSecret :: "bytes option \<Rightarrow> error + bytes" where
  "validateSecret secret =
     (case secret of
        None \<Rightarrow> Inl TypeError
      | Some k \<Rightarrow> if length k < MIN_SECRET_BYTES then Inl RangeError else Inr k)"

text \<open>
  \<open>new Uint8Array(fullDigest.buffer, fullDigest.byteOffset, SIGNATURE_BYTES)\<close> is a view
  of the first seven digest bytes; the typed-array constructor raises a \<open>RangeError\<close>
  when the buffer is too short for the view.
\<close>

definition sign :: "hmac_fn \<Rightarrow> bytes option \<Rightarrow> bytes option \<Rightarrow> error + bytes" where
  "sign hmac payload secret =
     (case validatePayload payload of
        Inl e \<Rightarrow> Inl e
      | Inr p \<Rightarrow>
          (case validateSecret secret of
             Inl e \<Rightarrow> Inl e
           | Inr k \<Rightarrow>
               (let fullDigest = hmac k p
                in if length fullDigest < SIGNATURE_BYTES then Inl RangeError
                   else Inr (take SIGNATURE_BYTES fullDigest))))"

text \<open>\<open>crypto.timingSafeEqual\<close> throws on buffers of different lengths.\<close>

definition timingSafeEqual :: "bytes \<Rightarrow> bytes \<Rightarrow> error + bool" where
  "timingSafeEqual a b = (if length a \<noteq> length b then Inl RangeError else Inr (a = b))"

definition verify :: "hmac_fn \<Rightarrow> bytes option \<Rightarrow> bytes option \<Rightarrow> bytes option \<Rightarrow> error + bool" where
  "verify hmac payload signature secret =
     (case payload of
        None \<Rightarrow> Inr False
      | Some p \<Rightarrow>
     (case signature of
        None \<Rightarrow> Inr False
      | Some s \<Rightarrow>
     (case secret of
        None \<Rightarrow> Inr False
      | Some k \<Rightarrow>
          if length p < MIN_PAYLOAD_BYTES then Inr False
          else if length k < MIN_SECRET_BYTES then Inr False
          else if length s \<noteq> SIGNATURE_BYTES then Inr False
          else (case sign hmac (Some p) (Some k) of
                  Inl _ \<Rightarrow> Inr False
                | Inr expected \<Rightarrow>
                    if length expected \<noteq> length s then Inr False
                    else timingSafeEqual expected s))))"

section \<open>Strings\<close>

text \<open>
  A JavaScript string is modelled as a list of \<open>char\<close>, one \<open>char\<close> per code unit, which
  covers the strings of code units 0 to 255.  \<open>trim\<close> strips the white space of that range
  from both ends (TAB, LF, VT, FF, CR, SPACE and NBSP).

  \<open>toUpperCase\<close> follows the case mapping of the language on that range: the letters a to z
  and the letters U+00E0 to U+00FE other than the division sign U+00F7 move down by 32, and
  the sharp s U+00DF becomes the two letters \<open>SS\<close>, so the result can be longer than the
  argument.  The upper-case forms of the micro sign U+00B5 and of U+00FF are U+039C and
  U+0178, above the range of \<open>char\<close>: the model keeps these two code units as they are.
  Like their upper-case forms they are above \<open>MAX_ASCII\<close> and outside the class
  \<open>[A-Z2-7]\<close>, and the result has the same length, so every test the program makes on the
  upper-cased string (its length, the class of its characters, the bound on its character
  codes) has the same outcome.
\<close>

definition charCode :: "char \<Rightarrow> nat" where
  "charCode c = of_char c"

definition is_white_space :: "char \<Rightarrow> bool" where
  "is_white_space c = (charCode c \<in> {9, 10, 11, 12, 13, 32, 160})"

definition trim :: "string \<Rightarrow> string" where
  "trim s = rev (dropWhile is_white_space (rev (dropWhile is_white_space s)))"

definition upper_char :: "char \<Rightarrow> string" where
  "upper_char c =
     (if 97 \<le> charCode c \<and> charCode c \<le> 122 then [char_of (charCode c - 32)]
      else if charCode c = 223 then ''SS''
      else if 224 \<le> charCode c \<and> charCode c \<le> 254 \<and> charCode c \<noteq> 247
        then [char_of (charCode c - 32)]
      else [c])"

definition toUpperCase :: "string \<Rightarrow> string" where
  "toUpperCase s = concat (map upper_char s)"

text \<open>The character class \<open>[A-Z2-7]\<close> of the regular expressions.\<close>

definition in_class_AZ27 :: "char \<Rightarrow> bool" where
  "in_class_AZ27 c = ((65 \<le> charCode c \<and> charCode c \<le> 90) \<or> (50 \<le> charCode c \<and> charCode c \<le> 55))"

text \<open>
  \<open>/^[A-Z2-7]{n}$/.test(s)\<close>: without the multiline flag the anchors match only at the two
  ends of the input, so the test holds for exactly the strings of \<open>n\<close> characters of the class.
\<close>

definition regex_AZ27 :: "nat \<Rightarrow> string \<Rightarrow> bool" where
  "regex_AZ27 n s = (length s = n \<and> list_all in_class_AZ27 s)"

section \<open>encoding/Base32Encoder\<close>

definition ALPHABET :: string where
  "ALPHABET = ''ABCDEFGHIJKLMNOPQRSTUVWXYZ234567''"

definition BITS_PER_CHAR :: nat where
  "BITS_PER_CHAR = 5"

definition BITS_PER_BYTE :: nat where
  "BITS_PER_BYTE = 8"

definition VID_BINARY_BYTES :: nat where
  "VID_BINARY_BYTES = 18"

text \<open>\<open>Math.ceil((VID_BINARY_BYTES * BITS_PER_BYTE) / BITS_PER_CHAR)\<close>\<close>

definition VID_STRING_CHARS :: nat where
  "VID_STRING_CHARS = (VID_BINARY_BYTES * BITS_PER_BYTE + BITS_PER_CHAR - 1) div BITS_PER_CHAR"

text \<open>
  The bit accumulator \<open>value\<close> is only ever the result of \<open><<\<close> and \<open>|\<close>, which work on
  32-bit integers and drop the bits shifted out at the top: it is a \<open>32 word\<close>.  The shift
  operators take their count modulo 32.
\<close>

definition shl :: "32 word \<Rightarrow> nat \<Rightarrow> 32 word" where
  "shl v n = push_bit (n mod 32) v"

definition ushr :: "32 word \<Rightarrow> nat \<Rightarrow> 32 word" where
  "ushr v n = drop_bit (n mod 32) v"

definition CHAR_MASK :: "32 word" where
  "CHAR_MASK = shl 1 BITS_PER_CHAR - 1"

definition BYTE_MASK :: "32 word" where
  "BYTE_MASK = shl 1 BITS_PER_BYTE - 1"

definition MAX_ASCII :: nat where
  "MAX_ASCII = 127"

text \<open>
  The decode table: 128 entries, \<open>-1\<close> everywhere but at the code of the \<open>i\<close>-th letter of
  the alphabet, which holds \<open>i\<close>.
\<close>

definition DECODE_LOOKUP :: "int list" where
  "DECODE_LOOKUP =
     fold (\<lambda>i table. table[charCode (ALPHABET ! i) := int i]) [0 ..< length ALPHABET]
       (replicate (MAX_ASCII + 1) (- 1))"

text \<open>The inner \<open>while (bits >= BITS_PER_CHAR)\<close> loop of \<open>encode\<close>.\<close>

function enc_emit :: "nat \<Rightarrow> 32 word \<Rightarrow> string \<Rightarrow> nat \<times> string" where
  "enc_emit bits v output =
     (if bits \<ge> BITS_PER_CHAR
      then enc_emit (bits - BITS_PER_CHAR) v
             (output @ [ALPHABET ! unat (ushr v (bits - BITS_PER_CHAR) AND CHAR_MASK)])
      else (bits, output))"
  by pat_completeness auto
termination
  by (relation "measure (\<lambda>(bits, v, output). bits)") (auto simp: BITS_PER_CHAR_def)

declare enc_emit.simps [simp del]

text \<open>The \<open>for\<close> loop of \<open>encode\<close> over the input bytes.\<close>

fun enc_loop :: "bytes \<Rightarrow> nat \<Rightarrow> 32 word \<Rightarrow> string \<Rightarrow> nat \<times> 32 word \<times> string" where
  "enc_loop [] bits v output = (bits, v, output)"
| "enc_loop (b # rest) bits v output =
     (let v' = shl v BITS_PER_BYTE OR ucast b;
          (bits', output') = enc_emit (bits + BITS_PER_BYTE) v' output
      in enc_loop rest bits' v' output')"

definition encode :: "bytes option \<Rightarrow> error + string" where
  "encode input =
     (case input of
        None \<Rightarrow> Inl TypeError
      | Some inp \<Rightarrow>
          if length inp \<noteq> VID_BINARY_BYTES then Inl RangeError
          else (let (bits, v, output) = enc_loop inp 0 0 []
                in Inr (if bits > 0
                        then output @ [ALPHABET ! unat (shl v (BITS_PER_CHAR - bits) AND CHAR_MASK)]
                        else output)))"

text \<open>
  The \<open>for\<close> loop of \<open>decode\<close> over the characters.  A write to a typed array past its end
  is ignored, as \<open>list_update\<close> is.
\<close>

fun dec_loop :: "string \<Rightarrow> nat \<Rightarrow> 32 word \<Rightarrow> bytes \<Rightarrow> nat \<Rightarrow> error + (bytes \<times> nat)" where
  "dec_loop [] bits v output outputIndex = Inr (output, outputIndex)"
| "dec_loop (c # rest) bits v output outputIndex =
     (if charCode c > MAX_ASCII then Inl GenericError
      else (let charValue = DECODE_LOOKUP ! charCode c
            in if charValue = - 1 then Inl GenericError
               else (let v' = shl v BITS_PER_CHAR OR word_of_int charValue;
                         bits' = bits + BITS_PER_CHAR
                     in if bits' \<ge> BITS_PER_BYTE
                        then dec_loop rest (bits' - BITS_PER_BYTE) v'
                               (output[outputIndex := ucast (ushr v' (bits' - BITS_PER_BYTE) AND BYTE_MASK)])
                               (outputIndex + 1)
                        else dec_loop rest bits' v' output outputIndex)))"

definition decode :: "string option \<Rightarrow> error + bytes" where
  "decode input =
     (case input of
        None \<Rightarrow> Inl TypeError
      | Some inp \<Rightarrow>
          (let normalized = toUpperCase (trim inp)
           in if length normalized \<noteq> VID_STRING_CHARS then Inl RangeError
              else (case dec_loop normalized 0 0 (replicate VID_BINARY_BYTES 0) 0 of
                      Inl e \<Rightarrow> Inl e
                    | Inr (output, outputIndex) \<Rightarrow>
                        if outputIndex \<noteq> VID_BINARY_BYTES then Inl RangeError
                        else Inr output)))"

section \<open>utils/ByteUtils and utils/TimeUtils\<close>

definition ByteUtils_concat :: "bytes \<Rightarrow> bytes \<Rightarrow> bytes" where
  "ByteUtils_concat a b = a @ b"

definition ByteUtils_copy :: "bytes \<Rightarrow> bytes" where
  "ByteUtils_copy src = src"

text \<open>
  Time is read in two ways: \<open>TimeUtils.now()\<close>, which a test may override, and
  \<open>Date.now()\<close>, which \<open>waitForNextMillisecond\<close> reads for its deadline.  Each is a
  sequence of readings; the world counts how many readings of each were taken.  The
  world also holds the heap of \<open>Uint8Array\<close>s, where an address is an index.
\<close>

record clocks =
  TimeUtils_now :: "nat \<Rightarrow> nat"
  Date_now :: "nat \<Rightarrow> nat"

type_synonym addr = nat
type_synonym heap = "bytes list"

record world =
  heap :: heap
  ticks :: nat
  dticks :: nat

definition alloc :: "heap \<Rightarrow> bytes \<Rightarrow> addr \<times> heap" where
  "alloc h bs = (length h, h @ [bs])"

text \<open>\<open>arr[i] = x\<close> on the array at address \<open>a\<close>.\<close>

definition store_byte :: "heap \<Rightarrow> addr \<Rightarrow> nat \<Rightarrow> byte \<Rightarrow> heap" where
  "store_byte h a i x = h[a := (h ! a)[i := x]]"

section \<open>core/VIDValue.ts\<close>

definition VID_BYTE_LENGTH :: nat where
  "VID_BYTE_LENGTH = 18"

definition VID_STRING_LENGTH :: nat where
  "VID_STRING_LENGTH = 29"

text \<open>\<open>VID_STRING_REGEX = /^[A-Z2-7]{26}$/\<close>\<close>

definition VID_STRING_REGEX :: "string \<Rightarrow> bool" where
  "VID_STRING_REGEX s = regex_AZ27 26 s"

text \<open>
  The field \<open>binary\<close> of a \<open>VIDValue\<close> is a reference to a \<open>Uint8Array\<close>: an address.
  The constructor argument is \<open>None\<close> when it is \<open>null\<close>, \<open>undefined\<close> or not a
  \<open>Uint8Array\<close>.
\<close>

record VIDValue =
  binary :: addr
  cachedString :: "string option"

definition VIDValue_new :: "heap \<Rightarrow> addr option \<Rightarrow> error + VIDValue" where
  "VIDValue_new h arg =
     (case arg of
        None \<Rightarrow> Inl TypeError
      | Some a \<Rightarrow>
          if length (h ! a) \<noteq> VID_BYTE_LENGTH then Inl RangeError
          else (case encode (Some (h ! a)) of
                  Inl e \<Rightarrow> Inl e
                | Inr s \<Rightarrow> Inr \<lparr>binary = a, cachedString = Some s\<rparr>))"

definition toString :: "heap \<Rightarrow> VIDValue \<Rightarrow> error + (string \<times> VIDValue)" where
  "toString h v =
     (case cachedString v of
        Some s \<Rightarrow> Inr (s, v)
      | None \<Rightarrow>
          (case encode (Some (h ! binary v)) of
             Inl e \<Rightarrow> Inl e
           | Inr encoded \<Rightarrow> Inr (encoded, v\<lparr>cachedString := Some encoded\<rparr>)))"

text \<open>\<open>new Uint8Array(this.binary)\<close> allocates a copy.\<close>

definition toBinary :: "heap \<Rightarrow> VIDValue \<Rightarrow> addr \<times> heap" where
  "toBinary h v = alloc h (h ! binary v)"

definition fromString :: "heap \<Rightarrow> string option \<Rightarrow> error + (VIDValue \<times> heap)" where
  "fromString h input =
     (case input of
        None \<Rightarrow> Inl TypeError
      | Some inp \<Rightarrow>
          (let trimmed = toUpperCase (trim inp)
           in if length trimmed \<noteq> VID_STRING_LENGTH then Inl RangeError
              else if \<not> VID_STRING_REGEX trimmed then Inl GenericError
              else (case decode (Some trimmed) of
                      Inl e \<Rightarrow> Inl e
                    | Inr bin \<Rightarrow>
                        (let (a, h1) = alloc h bin
                         in case VIDValue_new h1 (Some a) of
                              Inl e \<Rightarrow> Inl e
                            | Inr v \<Rightarrow> Inr (v, h1)))))"

section \<open>VIDMongoAdapter\<close>

text \<open>A BSON \<open>Binary\<close> is the bytes it wraps.\<close>

datatype mongo_input = MVIDValue VIDValue | MUint8Array bytes | MOther

definition resolveToBytes :: "heap \<Rightarrow> mongo_input \<Rightarrow> error + bytes" where
  "resolveToBytes h input =
     (case input of
        MVIDValue v \<Rightarrow> (let (a, h1) = toBinary h v in Inr (h1 ! a))
      | MUint8Array bs \<Rightarrow>
          if length bs \<noteq> VID_BYTE_LENGTH then Inl RangeError else Inr (ByteUtils_copy bs)
      | MOther \<Rightarrow> Inl TypeError)"

definition toDatabase :: "heap \<Rightarrow> mongo_input \<Rightarrow> error + bytes" where
  "toDatabase h input = resolveToBytes h input"

definition VIDMongoAdapter_fromString :: "heap \<Rightarrow> string option \<Rightarrow> error + bytes" where
  "VIDMongoAdapter_fromString h vidString =
     (case fromString h vidString of
        Inl e \<Rightarrow> Inl e
      | Inr (vidValue, h1) \<Rightarrow> toDatabase h1 (MVIDValue vidValue))"

section \<open>NodeIdResolver\<close>

text \<open>
  A JavaScript number that the code tests with \<open>Number.isInteger\<close> is \<open>JInt n\<close> when it
  is the integer \<open>n\<close>, and \<open>JNonInt\<close> otherwise (a fraction, \<open>NaN\<close>, an infinity).
  \<open>crypto.createHash("sha256")\<close> is a parameter of the model, from the string to its
  digest; \<open>process.env\<close> and the result of \<open>crypto.randomInt\<close> are read from a record.
\<close>

datatype jsnum = JInt int | JNonInt

datatype nodeid_arg = NodeNumber jsnum | NodeString string | NodeAbsent

datatype node_source = explicit_number | explicit_string | pod_ip | hostname | random

record NodeIdResolution =
  nodeId :: int
  source :: node_source
  warning :: "int option"

record process_env =
  POD_IP :: "string option"
  HOSTNAME :: "string option"
  randomInt :: int

type_synonym sha256_fn = "string \<Rightarrow> bytes"

definition MAX_UINT16 :: int where
  "MAX_UINT16 = 65535"

definition MAX_UINT8 :: int where
  "MAX_UINT8 = 255"

text \<open>\<open>hash[i]\<close> as an operand of \<open><<\<close> or \<open>|\<close>: a missing element counts as 0.\<close>

definition byte_operand :: "bytes \<Rightarrow> nat \<Rightarrow> 32 word" where
  "byte_operand hash i = (if i < length hash then ucast (hash ! i) else 0)"

definition hashToUint16 :: "sha256_fn \<Rightarrow> string \<Rightarrow> int" where
  "hashToUint16 sha input =
     (let hash = sha input in sint (shl (byte_operand hash 0) 8 OR byte_operand hash 1))"

text \<open>\<open>x && x.trim().length > 0\<close> for an environment variable.\<close>

definition env_present :: "string option \<Rightarrow> bool" where
  "env_present x = (case x of None \<Rightarrow> False | Some s \<Rightarrow> s \<noteq> [] \<and> length (trim s) > 0)"

definition resolve :: "sha256_fn \<Rightarrow> process_env \<Rightarrow> nodeid_arg \<Rightarrow> error + NodeIdResolution" where
  "resolve sha env explicitNodeId =
     (case explicitNodeId of
        NodeNumber x \<Rightarrow>
          (case x of
             JNonInt \<Rightarrow> Inl RangeError
           | JInt n \<Rightarrow>
               if n < 0 \<or> n > MAX_UINT16 then Inl RangeError
               else Inr \<lparr>nodeId = n, source = explicit_number, warning = None\<rparr>)
      | NodeString s \<Rightarrow>
          if length (trim s) = 0 then Inl TypeError
          else Inr \<lparr>nodeId = hashToUint16 sha (trim s), source = explicit_string, warning = None\<rparr>
      | NodeAbsent \<Rightarrow>
          if env_present (POD_IP env)
          then Inr \<lparr>nodeId = hashToUint16 sha (trim (the (POD_IP env))), source = pod_ip, warning = None\<rparr>
          else if env_present (HOSTNAME env)
          then Inr \<lparr>nodeId = hashToUint16 sha (trim (the (HOSTNAME env))), source = hostname, warning = None\<rparr>
          else Inr \<lparr>nodeId = randomInt env, source = random, warning = Some (randomInt env)\<rparr>)"

section \<open>VIDGenerator\<close>

definition MAX_TIMESTAMP :: nat where
  "MAX_TIMESTAMP = 0xffffffffffff"

definition PAYLOAD_BYTES :: nat where
  "PAYLOAD_BYTES = 11"

definition MAX_SEQUENCE :: nat where
  "MAX_SEQUENCE = 65535"

definition MAX_CLOCK_WAIT_MS :: nat where
  "MAX_CLOCK_WAIT_MS = 5000"

record VIDGeneratorConfig =
  cfg_secret :: "bytes option"
  cfg_keyVersion :: jsnum
  cfg_nodeId :: nodeid_arg

record VIDGenerator =
  lastTimestamp :: nat
  sequence :: nat

definition resolveNodeId :: "sha256_fn \<Rightarrow> nodeid_arg \<Rightarrow> error + int" where
  "resolveNodeId sha nid =
     (case nid of
        NodeString s \<Rightarrow>
          if length (trim s) = 0 then Inl TypeError else Inr (hashToUint16 sha (trim s))
      | NodeNumber x \<Rightarrow>
          (case x of
             JNonInt \<Rightarrow> Inl RangeError
           | JInt n \<Rightarrow> if n < 0 \<or> n > MAX_UINT16 then Inl RangeError else Inr n)
      | NodeAbsent \<Rightarrow> Inl TypeError)"

definition validateConfig :: "VIDGeneratorConfig \<Rightarrow> error + unit" where
  "validateConfig config =
     (case cfg_keyVersion config of
        JNonInt \<Rightarrow> Inl RangeError
      | JInt kv \<Rightarrow>
          if kv < 0 \<or> kv > MAX_UINT8 then Inl RangeError
          else (case cfg_secret config of
                  None \<Rightarrow> Inl TypeError
                | Some k \<Rightarrow>
                    if length k = 0 then Inl TypeError
                    else if length k < 32 then Inl RangeError
                    else Inr ()))"

text \<open>
  The \<open>do ... while\<close> loop of \<open>waitForNextMillisecond\<close>, from the \<open>i\<close>-th reading of
  \<open>TimeUtils.now()\<close> and the \<open>j\<close>-th reading of \<open>Date.now()\<close>.  It returns the outcome
  and the two counters; it need not return at all, which is the value \<open>None\<close>.
\<close>

partial_function (option) wait_loop ::
  "clocks \<Rightarrow> nat \<Rightarrow> nat \<Rightarrow> nat \<Rightarrow> nat \<Rightarrow> ((error + nat) \<times> nat \<times> nat) option" where
  "wait_loop clk sinceTimestamp deadline i j =
     (let now = TimeUtils_now clk i
      in if Date_now clk j > deadline then Some (Inl GenericError, i + 1, j + 1)
         else if now \<le> sinceTimestamp then wait_loop clk sinceTimestamp deadline (i + 1) (j + 1)
         else Some (Inr now, i + 1, j + 1))"

declare wait_loop.simps [code]

definition waitForNextMillisecond :: "clocks \<Rightarrow> nat \<Rightarrow> world \<Rightarrow> ((error + nat) \<times> world) option" where
  "waitForNextMillisecond clk sinceTimestamp w =
     (let deadline = Date_now clk (dticks w) + MAX_CLOCK_WAIT_MS
      in case wait_loop clk sinceTimestamp deadline (ticks w) (dticks w + 1) of
           None \<Rightarrow> None
         | Some (r, i, j) \<Rightarrow> Some (r, w\<lparr>ticks := i, dticks := j\<rparr>))"

definition nextTimestampAndSequence ::
  "clocks \<Rightarrow> VIDGenerator \<Rightarrow> world \<Rightarrow> ((error + nat \<times> nat) \<times> VIDGenerator \<times> world) option" where
  "nextTimestampAndSequence clk g w =
     (let t0 = TimeUtils_now clk (ticks w);
          w1 = w\<lparr>ticks := ticks w + 1\<rparr>;
          timestamp = (if t0 < lastTimestamp g then lastTimestamp g else t0)
      in if timestamp = lastTimestamp g
         then (let g1 = g\<lparr>sequence := sequence g + 1\<rparr>
               in if sequence g1 > MAX_SEQUENCE
                  then (case waitForNextMillisecond clk (lastTimestamp g1) w1 of
                          None \<Rightarrow> None
                        | Some (Inl e, w2) \<Rightarrow> Some (Inl e, g1, w2)
                        | Some (Inr now, w2) \<Rightarrow>
                            (let g2 = g1\<lparr>sequence := 0\<rparr>;
                                 g3 = g2\<lparr>lastTimestamp := now\<rparr>
                             in Some (Inr (now, sequence g3), g3, w2)))
                  else (let g2 = g1\<lparr>lastTimestamp := timestamp\<rparr>
                        in Some (Inr (timestamp, sequence g2), g2, w1)))
         else (let g1 = g\<lparr>sequence := 0\<rparr>;
                   g2 = g1\<lparr>lastTimestamp := timestamp\<rparr>
               in Some (Inr (timestamp, sequence g2), g2, w1)))"

text \<open>
  \<open>DataView.setUint8/16/32\<close> write the low bytes of the number, most significant byte
  first: \<open>be_bytes n v\<close> is the \<open>n\<close>-byte big-endian form of \<open>v\<close> modulo \<open>256 ^ n\<close>.
  The five writes of \<open>encodePayload\<close> fill the bytes 0, 1-4, 5-6, 7-8 and 9-10 of the
  fresh 11-byte array.
\<close>

fun be_bytes :: "nat \<Rightarrow> int \<Rightarrow> bytes" where
  "be_bytes 0 v = []"
| "be_bytes (Suc n) v = be_bytes n (v div 256) @ [word_of_int v]"

definition encodePayload :: "int \<Rightarrow> nat \<Rightarrow> int \<Rightarrow> nat \<Rightarrow> bytes" where
  "encodePayload keyVersion timestamp nid sequence_no =
     be_bytes 1 keyVersion @ be_bytes 4 (int timestamp div 0x10000)
       @ be_bytes 2 (int timestamp mod 0x10000) @ be_bytes 2 nid @ be_bytes 2 (int sequence_no)"

text \<open>The value of a number field after its validation.\<close>

definition jsnum_value :: "jsnum \<Rightarrow> int" where
  "jsnum_value x = (case x of JInt n \<Rightarrow> n | JNonInt \<Rightarrow> 0)"

definition generate ::
  "sha256_fn \<Rightarrow> hmac_fn \<Rightarrow> clocks \<Rightarrow> VIDGeneratorConfig \<Rightarrow> VIDGenerator \<Rightarrow> world
     \<Rightarrow> ((error + VIDValue) \<times> VIDGenerator \<times> world) option" where
  "generate sha hmac clk config g w =
     (case validateConfig config of
        Inl e \<Rightarrow> Some (Inl e, g, w)
      | Inr _ \<Rightarrow>
     (case resolveNodeId sha (cfg_nodeId config) of
        Inl e \<Rightarrow> Some (Inl e, g, w)
      | Inr resolvedNodeId \<Rightarrow>
     (case nextTimestampAndSequence clk g w of
        None \<Rightarrow> None
      | Some (Inl e, g1, w1) \<Rightarrow> Some (Inl e, g1, w1)
      | Some (Inr (timestamp, sequence_no), g1, w1) \<Rightarrow>
          if timestamp > MAX_TIMESTAMP then Some (Inl GenericError, g1, w1)
          else (let payload = encodePayload (jsnum_value (cfg_keyVersion config)) timestamp
                                resolvedNodeId sequence_no
                in case sign hmac (Some payload) (cfg_secret config) of
                     Inl e \<Rightarrow> Some (Inl e, g1, w1)
                   | Inr signature \<Rightarrow>
                       if length signature \<noteq> SIGNATURE_BYTES then Some (Inl GenericError, g1, w1)
                       else (let (a, h1) = alloc (heap w1) (ByteUtils_concat payload signature)
                             in case VIDValue_new h1 (Some a) of
                                  Inl e \<Rightarrow> Some (Inl e, g1, w1\<lparr>heap := h1\<rparr>)
                                | Inr v \<Rightarrow> Some (Inr v, g1, w1\<lparr>heap := h1\<rparr>))))))"

section \<open>VIDVerifier\<close>

definition PAYLOAD_END :: nat where
  "PAYLOAD_END = 11"

text \<open>\<open>BASE32_REGEX = /^[A-Z2-7]{29}$/\<close>\<close>

definition BASE32_REGEX :: "string \<Rightarrow> bool" where
  "BASE32_REGEX s = regex_AZ27 29 s"

datatype VerifyFailureReason =
  NULL_INPUT | UNSUPPORTED_TYPE | INVALID_STRING_LENGTH | INVALID_STRING_CHARS
  | INVALID_BINARY_LENGTH | UNKNOWN_KEY_VERSION | SIGNATURE_MISMATCH | DECODE_ERROR

datatype VerifyResult = Valid | Invalid VerifyFailureReason

datatype vid_input =
  InNull | InUndefined | InVIDValue VIDValue | InString string | InBuffer bytes
  | InUint8Array bytes | InArrayBuffer bytes | InUnsupported

text \<open>
  The argument \<open>keys\<close> is typed \<open>Map<number, Uint8Array>\<close>: the model takes the entries of
  the map in iteration order.
\<close>

type_synonym keymap = "(jsnum \<times> bytes) list"

fun validateKeys_entries :: "keymap \<Rightarrow> error + unit" where
  "validateKeys_entries [] = Inr ()"
| "validateKeys_entries ((version, k) # rest) =
     (case version of
        JNonInt \<Rightarrow> Inl RangeError
      | JInt n \<Rightarrow>
          if n < 0 \<or> n > 255 then Inl RangeError
          else if length k = 0 then Inl TypeError
          else if length k < 32 then Inl RangeError
          else validateKeys_entries rest)"

definition validateKeys :: "keymap \<Rightarrow> error + unit" where
  "validateKeys keys = (if length keys = 0 then Inl RangeError else validateKeys_entries keys)"

definition normalizeToBinary :: "heap \<Rightarrow> vid_input \<Rightarrow> VerifyFailureReason + bytes" where
  "normalizeToBinary h input =
     (case input of
        InNull \<Rightarrow> Inl NULL_INPUT
      | InUndefined \<Rightarrow> Inl NULL_INPUT
      | InVIDValue v \<Rightarrow> (let (a, h1) = toBinary h v in Inr (h1 ! a))
      | InString s \<Rightarrow>
          (let trimmed = toUpperCase (trim s)
           in if length trimmed \<noteq> VID_STRING_LENGTH then Inl INVALID_STRING_LENGTH
              else if \<not> BASE32_REGEX trimmed then Inl INVALID_STRING_CHARS
              else (case decode (Some trimmed) of
                      Inl _ \<Rightarrow> Inl DECODE_ERROR
                    | Inr bin \<Rightarrow> Inr bin))
      | InBuffer bs \<Rightarrow> Inr bs
      | InUint8Array bs \<Rightarrow> Inr bs
      | InArrayBuffer bs \<Rightarrow> Inr bs
      | InUnsupported \<Rightarrow> Inl UNSUPPORTED_TYPE)"

definition verifyDetailed :: "hmac_fn \<Rightarrow> heap \<Rightarrow> vid_input \<Rightarrow> keymap \<Rightarrow> error + VerifyResult" where
  "verifyDetailed hmac h input keys =
     (case validateKeys keys of
        Inl e \<Rightarrow> Inl e
      | Inr _ \<Rightarrow>
     (case normalizeToBinary h input of
        Inl reason \<Rightarrow> Inr (Invalid reason)
      | Inr bin \<Rightarrow>
          if length bin \<noteq> VID_BYTE_LENGTH then Inr (Invalid INVALID_BINARY_LENGTH)
          else (case map_of keys (JInt (uint (bin ! 0))) of
                  None \<Rightarrow> Inr (Invalid UNKNOWN_KEY_VERSION)
                | Some k \<Rightarrow>
                    if length k = 0 then Inr (Invalid UNKNOWN_KEY_VERSION)
                    else (let payload = take PAYLOAD_END bin;
                              embeddedSignature = take SIGNATURE_BYTES (drop PAYLOAD_END bin)
                          in case verify hmac (Some payload) (Some embeddedSignature) (Some k) of
                               Inl e \<Rightarrow> Inl e
                             | Inr isValid \<Rightarrow>
                                 if \<not> isValid then Inr (Invalid SIGNATURE_MISMATCH)
                                 else Inr Valid))))"

section \<open>VIDParser: the field reads\<close>

text \<open>\<open>DataView.getUint16/32\<close>: the big-endian value of the bytes of the field.\<close>

definition be_value :: "bytes \<Rightarrow> nat" where
  "be_value bs = foldl (\<lambda>a b. a * 256 + unat b) 0 bs"

definition getUint :: "nat \<Rightarrow> bytes \<Rightarrow> nat \<Rightarrow> nat" where
  "getUint width bin offset = be_value (take width (drop offset bin))"

definition parsed_timestamp :: "bytes \<Rightarrow> nat" where
  "parsed_timestamp bin = getUint 4 bin 1 * 0x10000 + getUint 2 bin 5"

definition parsed_sequence :: "bytes \<Rightarrow> nat" where
  "parsed_sequence bin = getUint 2 bin 9"

section \<open>Definitions used to state the properties\<close>

text \<open>
  A run of successive \<open>generate\<close> calls on one generator, one configuration per call.
  After each call that returns, the caller reads the identifier with \<open>toBinary\<close>.
\<close>

fun generate_all ::
  "sha256_fn \<Rightarrow> hmac_fn \<Rightarrow> clocks \<Rightarrow> VIDGeneratorConfig list \<Rightarrow> VIDGenerator \<Rightarrow> world
     \<Rightarrow> ((error + bytes) list \<times> VIDGenerator \<times> world) option" where
  "generate_all sha hmac clk [] g w = Some ([], g, w)"
| "generate_all sha hmac clk (config # rest) g w =
     (case generate sha hmac clk config g w of
        None \<Rightarrow> None
      | Some (r, g1, w1) \<Rightarrow>
          (let (out, w2) = (case r of
                              Inl e \<Rightarrow> (Inl e, w1)
                            | Inr v \<Rightarrow> (let (a, h1) = toBinary (heap w1) v
                                        in (Inr (h1 ! a), w1\<lparr>heap := h1\<rparr>)))
           in case generate_all sha hmac clk rest g1 w2 of
                None \<Rightarrow> None
              | Some (outs, g2, w3) \<Rightarrow> Some (out # outs, g2, w3)))"

text \<open>The binaries of the calls that returned, in call order.\<close>

fun returned :: "(error + bytes) list \<Rightarrow> bytes list" where
  "returned [] = []"
| "returned (Inl e # rs) = returned rs"
| "returned (Inr b # rs) = b # returned rs"

text \<open>Byte-wise lexicographic order on byte arrays, as a bytewise sort compares them.\<close>

fun bytes_less :: "bytes \<Rightarrow> bytes \<Rightarrow> bool" where
  "bytes_less [] [] = False"
| "bytes_less [] (y # ys) = True"
| "bytes_less (x # xs) [] = False"
| "bytes_less (x # xs) (y # ys) = (x < y \<or> (x = y \<and> bytes_less xs ys))"

definition pair_lt :: "nat \<times> nat \<Rightarrow> nat \<times> nat \<Rightarrow> bool" where
  "pair_lt p q = (fst p < fst q \<or> (fst p = fst q \<and> snd p < snd q))"

definition embedded_pair :: "bytes \<Rightarrow> nat \<times> nat" where
  "embedded_pair bin = (parsed_timestamp bin, parsed_sequence bin)"

text \<open>The value of a list of digits in a base, most significant digit first.\<close>

definition num :: "nat \<Rightarrow> nat list \<Rightarrow> nat" where
  "num b ds = foldl (\<lambda>a d. a * b + d) 0 ds"

text \<open>The table entry of a character, as \<open>decode\<close> reads it.\<close>

definition charValue :: "char \<Rightarrow> int" where
  "charValue c = DECODE_LOOKUP ! charCode c"

text \<open>Closed forms of the alphabet and of the decode table.\<close>

definition lookup_closed :: "nat \<Rightarrow> int" where
  "lookup_closed n =
     (if 65 \<le> n \<and> n \<le> 90 then int n - 65 else if 50 \<le> n \<and> n \<le> 55 then int n - 24 else - 1)"

definition alpha_closed :: "nat \<Rightarrow> char" where
  "alpha_closed d = char_of (if d < 26 then 65 + d else 24 + d)"

text \<open>
  Loop invariants of \<open>encode\<close> and \<open>decode\<close>.  \<open>T\<close> is the number formed by all the
  bits read so far and \<open>n\<close> their count: the accumulator agrees with \<open>T\<close> on its low
  \<open>bits\<close> bits, and what was emitted is \<open>T\<close> without those bits.
\<close>

definition enc_inv :: "nat \<Rightarrow> nat \<Rightarrow> nat \<Rightarrow> 32 word \<Rightarrow> string \<Rightarrow> bool" where
  "enc_inv T n bits v output \<longleftrightarrow>
     bits \<le> 32 \<and> unat v mod 2 ^ bits = T mod 2 ^ bits \<and>
     (\<exists>ds. output = map (\<lambda>d. ALPHABET ! d) ds \<and> (\<forall>d\<in>set ds. d < 32) \<and>
           num 32 ds = T div 2 ^ bits \<and> 5 * length ds + bits = n)"

definition dec_inv :: "nat \<Rightarrow> nat \<Rightarrow> nat \<Rightarrow> 32 word \<Rightarrow> bytes \<Rightarrow> nat \<Rightarrow> bool" where
  "dec_inv U n bits v output k \<longleftrightarrow>
     bits \<le> 32 \<and> unat v mod 2 ^ bits = U mod 2 ^ bits \<and> k \<le> length output \<and>
     num 256 (map unat (take k output)) = U div 2 ^ bits \<and> 8 * k + bits = n"

text \<open>The state of a generator as a pair, and what a returned binary looks like.\<close>

definition gen_pair :: "VIDGenerator \<Rightarrow> nat \<times> nat" where
  "gen_pair g = (lastTimestamp g, sequence g)"

definition minted :: "int \<Rightarrow> int \<Rightarrow> nat \<times> nat \<Rightarrow> bytes \<Rightarrow> bool" where
  "minted kv nd p b \<longleftrightarrow>
     fst p \<le> MAX_TIMESTAMP \<and> snd p \<le> MAX_SEQUENCE \<and>
     (\<exists>x. length x = 7 \<and> b = encodePayload kv (fst p) nd (snd p) @ x)"

text \<open>A clock and a configuration for a concrete run: two calls in millisecond 7, one in 8.\<close>

definition clk_demo :: clocks where
  "clk_demo = \<lparr>TimeUtils_now = (\<lambda>i. if i < 2 then 7 else 8), Date_now = (\<lambda>j. 7 + j)\<rparr>"

definition cfg_demo :: VIDGeneratorConfig where
  "cfg_demo = \<lparr>cfg_secret = Some (replicate 32 7), cfg_keyVersion = JInt 1, cfg_nodeId = NodeString ''node-a''\<rparr>"

text \<open>A stand-in for SHA-256, used only to run the model on concrete inputs.\<close>

definition toy_sha :: sha256_fn where
  "toy_sha s = take 32 (map (\<lambda>c. of_nat (of_char c)) s @ replicate 32 0)"

text \<open>A stand-in digest of 32 bytes, used only to run the model on concrete inputs.\<close>

definition toy_hmac :: hmac_fn where
  "toy_hmac k p = take 32 (map2 (\<lambda>a b. a XOR b) k (p @ replicate 32 0))"

section \<open>Bit arithmetic of the accumulators\<close>

lemma and_31_take_bit: "(w :: 32 word) AND 31 = take_bit 5 w"
  by (simp add: take_bit_eq_mask mask_eq_exp_minus_1)

lemma and_255_take_bit: "(w :: 32 word) AND 255 = take_bit 8 w"
  by (simp add: take_bit_eq_mask mask_eq_exp_minus_1)

lemma unat_window5: "unat (drop_bit n (v :: 32 word) AND 31) = (unat v div 2 ^ n) mod 32"
  unfolding and_31_take_bit
  by (simp only: unsigned_take_bit_eq unat_drop_bit_eq) (simp add: take_bit_eq_mod drop_bit_eq_div)

lemma unat_window8:
  "unat (ucast (drop_bit n (v :: 32 word) AND 255) :: 8 word) = (unat v div 2 ^ n) mod 256"
  unfolding and_255_take_bit
  by (simp only: unsigned_ucast_eq unsigned_take_bit_eq unat_drop_bit_eq)
     (simp add: take_bit_eq_mod drop_bit_eq_div)

lemma unat_pad5: "n < 32 \<Longrightarrow> unat (push_bit n (v :: 32 word) AND 31) = (unat v * 2 ^ n) mod 32"
  unfolding and_31_take_bit
  apply (simp only: unsigned_take_bit_eq unsigned_push_bit_eq take_bit_take_bit)
  apply (simp add: take_bit_eq_mod push_bit_eq_mult)
  done

lemma take_bit_shift_or:
  "bits + k \<le> 32 \<Longrightarrow>
   take_bit (bits + k) (take_bit 32 (push_bit k (x :: nat)) OR take_bit k y)
     = push_bit k (take_bit bits x) OR take_bit k y"
  by (rule bit_eqI) (auto simp: bit_simps)

lemma shift_or_is_add: "push_bit k (z :: nat) OR take_bit k y = push_bit k z + take_bit k y"
  by (rule disjunctive_add [symmetric]) (auto simp: bit_simps)

lemma nat_accumulate:
  assumes "bits + k \<le> 32" "y < 2 ^ k"
  shows "(take_bit 32 (push_bit k (x :: nat)) OR y) mod 2 ^ (bits + k) = (x mod 2 ^ bits) * 2 ^ k + y"
proof -
  have y: "take_bit k y = y" using assms(2) by (simp add: take_bit_nat_eq_self)
  have "take_bit (bits + k) (take_bit 32 (push_bit k x) OR y) = push_bit k (take_bit bits x) + y"
    using take_bit_shift_or [OF assms(1), of x y] shift_or_is_add [of k "take_bit bits x" y]
    unfolding y by simp
  then show ?thesis by (simp only: take_bit_eq_mod push_bit_eq_mult)
qed

lemma accumulate_byte:
  "bits + 8 \<le> 32 \<Longrightarrow>
   unat (push_bit 8 (v :: 32 word) OR ucast (b :: 8 word)) mod 2 ^ (bits + 8)
     = (unat v mod 2 ^ bits) * 256 + unat b"
proof -
  assume a: "bits + 8 \<le> 32"
  have b: "unat b < 2 ^ 8" using unsigned_less [of b] by simp
  have "unat (push_bit 8 v OR ucast b) = take_bit 32 (push_bit 8 (unat v)) OR unat b"
    by (simp only: unsigned_or_eq unsigned_push_bit_eq unsigned_ucast_eq)
       (simp add: take_bit_nat_eq_self [of "unat b" 32] less_trans [OF b])
  then show ?thesis using nat_accumulate [OF a b, of "unat v"] by simp
qed

lemma accumulate_char:
  "bits + 5 \<le> 32 \<Longrightarrow> 0 \<le> d \<Longrightarrow> d < 32 \<Longrightarrow>
   unat (push_bit 5 (v :: 32 word) OR word_of_int d) mod 2 ^ (bits + 5)
     = (unat v mod 2 ^ bits) * 32 + nat d"
proof -
  assume a: "bits + 5 \<le> 32" and d: "0 \<le> d" "d < 32"
  have b: "nat d < 2 ^ 5" using d by simp
  have "unat (word_of_int d :: 32 word) = nat d" using d
    by (simp add: unat_eq_nat_uint uint_word_of_int take_bit_eq_mod)
  then have "unat (push_bit 5 v OR word_of_int d) = take_bit 32 (push_bit 5 (unat v)) OR nat d"
    by (simp only: unsigned_or_eq unsigned_push_bit_eq) simp
  then show ?thesis using nat_accumulate [OF a b, of "unat v"] by simp
qed

lemma CHAR_MASK_eq: "CHAR_MASK = 31"
  by (simp add: CHAR_MASK_def shl_def BITS_PER_CHAR_def)

lemma BYTE_MASK_eq: "BYTE_MASK = 255"
  by (simp add: BYTE_MASK_def shl_def BITS_PER_BYTE_def)

lemma div_mod_window: "(x :: nat) mod 2 ^ (n + k) div 2 ^ n = (x div 2 ^ n) mod 2 ^ k"
  by (simp add: drop_bit_take_bit flip: take_bit_eq_mod drop_bit_eq_div)

lemma mod_mod_le: "n \<le> m \<Longrightarrow> (x :: nat) mod 2 ^ m = y mod 2 ^ m \<Longrightarrow> x mod 2 ^ n = y mod 2 ^ n"
  by (metis le_imp_power_dvd mod_mod_cancel)

lemma acc_mod: "d < 2 ^ k \<Longrightarrow> (T mod 2 ^ bits) * 2 ^ k + d = (T * 2 ^ k + d) mod 2 ^ (bits + k)"
  for T d :: nat
  by (simp add: power_add mult.commute [of _ "2 ^ k"] mod_mult2_eq)

lemma acc_div: "d < 2 ^ k \<Longrightarrow> (T * 2 ^ k + d) div 2 ^ (bits + k) = T div 2 ^ bits"
  for T d :: nat
  by (simp add: power_add mult.commute [of _ "2 ^ k"] div_mult2_eq)

lemma double_mod_32: "((x::nat) * 2) mod 32 = (x mod 16) * 2"
  using mult_mod_left [of x 16 2] by simp

lemma split_16: "(x::nat) div 16 * 32 + x mod 16 * 2 = 2 * x"
  using div_mult_mod_eq [of x 16] by linarith

lemma count_144: "5 * (l::nat) + bits = 144 \<Longrightarrow> bits < 5 \<Longrightarrow> bits = 4 \<and> l = 28"
  by arith

lemma count_145: "8 * (l::nat) + bits = 145 \<Longrightarrow> bits < 8 \<Longrightarrow> bits = 1 \<and> l = 18"
  by arith

lemma unat_byte_less: "unat (b :: byte) < 256"
proof -
  have "unat b < 2 ^ 8" using unsigned_less [of b] by simp
  then show ?thesis by simp
qed

section \<open>Digit lists\<close>

lemma num_Nil [simp]: "num b [] = 0"
  by (simp add: num_def)

lemma num_snoc [simp]: "num b (ds @ [d]) = num b ds * b + d"
  by (simp add: num_def)

lemma num_inj:
  assumes "length xs = length ys" "\<forall>x\<in>set xs. x < b" "\<forall>y\<in>set ys. y < b" "num b xs = num b ys"
  shows "xs = ys"
  using assms
proof (induction xs arbitrary: ys rule: rev_induct)
  case Nil
  then show ?case by simp
next
  case (snoc x xs)
  then obtain y ys' where ys: "ys = ys' @ [y]"
    by (cases ys rule: rev_cases) auto
  from snoc.prems ys have xb: "x < b" and yb: "y < b" by auto
  from snoc.prems ys have eq: "num b xs * b + x = num b ys' * b + y" by simp
  from eq have "(num b xs * b + x) mod b = (num b ys' * b + y) mod b" by simp
  with xb yb have xy: "x = y" by simp
  from eq have "(num b xs * b + x) div b = (num b ys' * b + y) div b" by simp
  with xb yb have "num b xs = num b ys'" by simp
  with snoc.IH [of ys'] snoc.prems ys have "xs = ys'" by auto
  with xy ys show ?case by simp
qed

lemma num_bytes_inj:
  assumes "length xs = length ys" "num 256 (map unat xs) = num 256 (map unat (ys :: bytes))"
  shows "xs = ys"
proof -
  have b: "\<And>zs :: bytes. \<forall>x\<in>set (map unat zs). x < 256"
    using unat_byte_less by auto
  have "map unat xs = map unat ys"
    using assms b [of xs] b [of ys] by (intro num_inj [of _ _ 256]) simp_all
  then show ?thesis by (simp add: inj_map_eq_map [OF inj_onI])
qed

section \<open>The alphabet and the decode table\<close>

lemma DECODE_LOOKUP_map: "DECODE_LOOKUP = map lookup_closed [0..<128]"
  by code_simp

lemma ALPHABET_map: "ALPHABET = map alpha_closed [0..<32]"
  by code_simp

lemma DECODE_LOOKUP_nth: "n < 128 \<Longrightarrow> DECODE_LOOKUP ! n = lookup_closed n"
  by (simp only: DECODE_LOOKUP_map nth_map length_upt nth_upt) simp

lemma ALPHABET_nth: "d < 32 \<Longrightarrow> ALPHABET ! d = alpha_closed d"
  by (simp only: ALPHABET_map nth_map length_upt nth_upt) simp

lemma charCode_char_of: "n < 256 \<Longrightarrow> charCode (char_of n) = n"
  by (simp add: charCode_def)

lemma class_char:
  assumes "in_class_AZ27 c"
  shows "charCode c \<le> MAX_ASCII" "charValue c \<noteq> - 1" "0 \<le> charValue c" "charValue c < 32"
    "ALPHABET ! nat (charValue c) = c" "\<not> is_white_space c" "upper_char c = [c]"
proof -
  let ?n = "charCode c"
  have c: "char_of ?n = c" by (simp add: charCode_def)
  have r: "(65 \<le> ?n \<and> ?n \<le> 90) \<or> (50 \<le> ?n \<and> ?n \<le> 55)"
    using assms by (simp add: in_class_AZ27_def)
  then have lt: "?n < 128" by auto
  have v: "charValue c = lookup_closed ?n"
    by (simp add: charValue_def DECODE_LOOKUP_nth [OF lt])
  from r show "charCode c \<le> MAX_ASCII" by (auto simp: MAX_ASCII_def)
  from r show "charValue c \<noteq> - 1" "0 \<le> charValue c" "charValue c < 32"
    unfolding v lookup_closed_def by auto
  from r have "nat (lookup_closed ?n) < 32" unfolding lookup_closed_def by auto
  from ALPHABET_nth [OF this]
  have "ALPHABET ! nat (charValue c) = alpha_closed (nat (lookup_closed ?n))"
    by (simp add: v)
  also from r have "\<dots> = char_of ?n"
    unfolding lookup_closed_def alpha_closed_def by (auto intro!: arg_cong [of _ _ char_of])
  finally show "ALPHABET ! nat (charValue c) = c" by (simp add: c)
  from r show "\<not> is_white_space c" by (auto simp: is_white_space_def)
  from r show "upper_char c = [c]" by (auto simp: upper_char_def)
qed

lemma alphabet_char:
  assumes "d < 32"
  shows "in_class_AZ27 (ALPHABET ! d)" "charValue (ALPHABET ! d) = int d"
proof -
  let ?n = "if d < 26 then 65 + d else 24 + d"
  have n: "?n < 128" using assms by auto
  then have cc: "charCode (ALPHABET ! d) = ?n"
    unfolding ALPHABET_nth [OF assms] alpha_closed_def by (intro charCode_char_of) auto
  show "in_class_AZ27 (ALPHABET ! d)"
    unfolding in_class_AZ27_def cc using assms by auto
  show "charValue (ALPHABET ! d) = int d"
    unfolding charValue_def cc DECODE_LOOKUP_nth [OF n] lookup_closed_def using assms by auto
qed

lemma dropWhile_none: "\<forall>x\<in>set xs. \<not> P x \<Longrightarrow> dropWhile P xs = xs"
  by (cases xs) auto

lemma normalize_class:
  assumes "\<forall>c\<in>set t. in_class_AZ27 c"
  shows "toUpperCase (trim t) = t"
proof -
  have w: "\<forall>c\<in>set t. \<not> is_white_space c" using assms class_char(6) by blast
  have "dropWhile is_white_space t = t" using w by (rule dropWhile_none)
  moreover have "dropWhile is_white_space (rev t) = rev t" using w by (intro dropWhile_none) simp
  ultimately have tr: "trim t = t" by (simp add: trim_def)
  have "concat (map upper_char t) = t" using assms
  proof (induct t)
    case Nil
    show ?case by simp
  next
    case (Cons c cs)
    then show ?case using class_char(7) [of c] by simp
  qed
  then show ?thesis by (simp only: toUpperCase_def tr)
qed

section \<open>The encoder\<close>

lemma enc_inv_emit:
  assumes "enc_inv T n bits v output" "5 \<le> bits"
  shows "enc_inv T n (bits - 5) v (output @ [ALPHABET ! unat (ushr v (bits - 5) AND CHAR_MASK)])"
proof -
  from assms obtain ds where ds: "output = map (\<lambda>d. ALPHABET ! d) ds" "\<forall>d\<in>set ds. d < 32"
      "num 32 ds = T div 2 ^ bits" "5 * length ds + bits = n"
    and b: "bits \<le> 32" and v: "unat v mod 2 ^ bits = T mod 2 ^ bits"
    by (auto simp: enc_inv_def)
  let ?X = "T div 2 ^ (bits - 5)"
  let ?d = "unat (ushr v (bits - 5) AND CHAR_MASK)"
  have bits: "bits = (bits - 5) + 5" using assms(2) by simp
  have "?d = (unat v div 2 ^ (bits - 5)) mod 2 ^ 5"
    using b by (simp add: ushr_def CHAR_MASK_eq unat_window5)
  also have "\<dots> = unat v mod 2 ^ bits div 2 ^ (bits - 5)"
    using div_mod_window [of "unat v" "bits - 5" 5] assms(2) by simp
  also have "\<dots> = T mod 2 ^ bits div 2 ^ (bits - 5)" by (simp add: v)
  also have "\<dots> = ?X mod 2 ^ 5"
    using div_mod_window [of T "bits - 5" 5] assms(2) by simp
  finally have d: "?d = ?X mod 32" by simp
  have "T div 2 ^ bits = ?X div 2 ^ 5"
    using bits by (metis div_exp_eq)
  then have X: "num 32 (ds @ [?d]) = ?X" using ds(3) d by simp
  have "unat v mod 2 ^ (bits - 5) = T mod 2 ^ (bits - 5)"
    using mod_mod_le [OF _ v, of "bits - 5"] by simp
  moreover have "output @ [ALPHABET ! ?d] = map (\<lambda>d. ALPHABET ! d) (ds @ [?d])" by (simp add: ds)
  moreover have "\<forall>d\<in>set (ds @ [?d]). d < 32" using ds(2) d by auto
  moreover have "5 * length (ds @ [?d]) + (bits - 5) = n" using ds(4) assms(2) by simp
  ultimately show ?thesis
    using b X unfolding enc_inv_def by (intro conjI exI [of _ "ds @ [?d]"]) auto
qed

lemma enc_emit_inv:
  "enc_inv T n bits v out \<Longrightarrow>
   \<exists>bits' out'. enc_emit bits v out = (bits', out') \<and> bits' < 5 \<and> enc_inv T n bits' v out'"
proof (induction bits v out rule: enc_emit.induct)
  case (1 bits v out)
  show ?case
  proof (cases "5 \<le> bits")
    case True
    then show ?thesis
      using 1 enc_inv_emit [of T n bits v out]
      by (subst enc_emit.simps) (simp add: BITS_PER_CHAR_def)
  next
    case False
    then show ?thesis using 1(2) by (subst enc_emit.simps) (simp add: BITS_PER_CHAR_def)
  qed
qed

lemma enc_inv_byte:
  assumes "enc_inv T n bits v output" "bits < 5"
  shows "enc_inv (T * 256 + unat (b :: byte)) (n + 8) (bits + 8) (shl v BITS_PER_BYTE OR ucast b) output"
proof -
  from assms obtain ds where ds: "output = map (\<lambda>d. ALPHABET ! d) ds" "\<forall>d\<in>set ds. d < 32"
      "num 32 ds = T div 2 ^ bits" "5 * length ds + bits = n"
    and v: "unat v mod 2 ^ bits = T mod 2 ^ bits"
    by (auto simp: enc_inv_def)
  have le: "bits + 8 \<le> 32" using assms(2) by simp
  have bb: "unat b < 2 ^ 8" using unat_byte_less [of b] by simp
  have "unat (shl v BITS_PER_BYTE OR ucast b) mod 2 ^ (bits + 8) = (unat v mod 2 ^ bits) * 256 + unat b"
    using accumulate_byte [OF le] by (simp add: shl_def BITS_PER_BYTE_def)
  also have "\<dots> = (T mod 2 ^ bits) * 2 ^ 8 + unat b" by (simp add: v)
  also have "\<dots> = (T * 2 ^ 8 + unat b) mod 2 ^ (bits + 8)" by (rule acc_mod [OF bb])
  finally have 1: "unat (shl v BITS_PER_BYTE OR ucast b) mod 2 ^ (bits + 8)
      = (T * 256 + unat b) mod 2 ^ (bits + 8)" by simp
  have 2: "(T * 256 + unat b) div 2 ^ (bits + 8) = T div 2 ^ bits"
    using acc_div [OF bb, of T bits] by simp
  show ?thesis unfolding enc_inv_def using le 1 2 ds by (intro conjI exI [of _ ds]) auto
qed

lemma enc_loop_inv:
  "enc_inv T n bits v out \<Longrightarrow> bits < 5 \<Longrightarrow>
   \<exists>bits' v' out'. enc_loop bs bits v out = (bits', v', out') \<and> bits' < 5 \<and>
      enc_inv (foldl (\<lambda>a b. a * 256 + unat b) T bs) (n + 8 * length bs) bits' v' out'"
proof (induction bs arbitrary: T n bits v out)
  case Nil
  then show ?case by simp
next
  case (Cons b bs)
  let ?v = "shl v BITS_PER_BYTE OR ucast b"
  have "enc_inv (T * 256 + unat b) (n + 8) (bits + 8) ?v out"
    using Cons.prems by (rule enc_inv_byte)
  then obtain bits1 out1 where e: "enc_emit (bits + 8) ?v out = (bits1, out1)" "bits1 < 5"
      "enc_inv (T * 256 + unat b) (n + 8) bits1 ?v out1"
    using enc_emit_inv by blast
  from Cons.IH [OF e(3) e(2)] e(1) show ?case
    by (simp add: BITS_PER_BYTE_def add.assoc)
qed

lemma encode_digits:
  assumes "length bs = 18"
  shows "\<exists>ds. encode (Some bs) = Inr (map (\<lambda>d. ALPHABET ! d) ds) \<and> length ds = 29 \<and>
           (\<forall>d\<in>set ds. d < 32) \<and> num 32 ds = 2 * num 256 (map unat bs)"
proof -
  let ?T = "num 256 (map unat bs)"
  have T: "foldl (\<lambda>a b. a * 256 + unat b) 0 bs = ?T" by (simp add: num_def foldl_map)
  have "enc_inv 0 0 0 0 []" by (simp add: enc_inv_def)
  from enc_loop_inv [OF this, of bs] obtain bits v out where
    r: "enc_loop bs 0 0 [] = (bits, v, out)" "bits < 5" "enc_inv ?T 144 bits v out"
    unfolding T using assms by auto
  from r(3) obtain ds where ds: "out = map (\<lambda>d. ALPHABET ! d) ds" "\<forall>d\<in>set ds. d < 32"
      "num 32 ds = ?T div 2 ^ bits" "5 * length ds + bits = 144"
    and v: "unat v mod 2 ^ bits = ?T mod 2 ^ bits"
    by (auto simp: enc_inv_def)
  from count_144 [OF ds(4) r(2)] have bits: "bits = 4" and len: "length ds = 28" by simp_all
  let ?d = "unat (shl v (BITS_PER_CHAR - bits) AND CHAR_MASK)"
  have "?d = (unat v * 2) mod 32"
    using unat_pad5 [of 1 v] by (simp add: shl_def BITS_PER_CHAR_def bits CHAR_MASK_eq)
  also have "\<dots> = (unat v mod 16) * 2" by (rule double_mod_32)
  also have "\<dots> = (?T mod 16) * 2" using v bits by simp
  finally have d: "?d = (?T mod 16) * 2" .
  have "num 32 (ds @ [?d]) = 2 * ?T" using ds(3) bits split_16 [of ?T] unfolding num_snoc d by simp
  moreover have "?T mod 16 < 16" by simp
  then have "?d < 32" unfolding d by linarith
  ultimately show ?thesis
    using r(1) ds(1,2) len bits assms
    by (intro exI [of _ "ds @ [?d]"]) (simp add: encode_def VID_BINARY_BYTES_def)
qed

section \<open>The decoder\<close>

lemma dec_inv_char:
  assumes "dec_inv U n bits v output k" "bits < 8" "0 \<le> d" "d < 32"
  shows "dec_inv (U * 32 + nat d) (n + 5) (bits + 5) (shl v BITS_PER_CHAR OR word_of_int d) output k"
proof -
  from assms(1) have v: "unat v mod 2 ^ bits = U mod 2 ^ bits" and k: "k \<le> length output"
    and o: "num 256 (map unat (take k output)) = U div 2 ^ bits" and n: "8 * k + bits = n"
    by (auto simp: dec_inv_def)
  have le: "bits + 5 \<le> 32" using assms(2) by simp
  have d: "nat d < 2 ^ 5" using assms(3,4) by simp
  have "unat (shl v BITS_PER_CHAR OR word_of_int d) mod 2 ^ (bits + 5)
      = (unat v mod 2 ^ bits) * 32 + nat d"
    using accumulate_char [OF le assms(3,4)] by (simp add: shl_def BITS_PER_CHAR_def)
  also have "\<dots> = (U mod 2 ^ bits) * 2 ^ 5 + nat d" by (simp add: v)
  also have "\<dots> = (U * 2 ^ 5 + nat d) mod 2 ^ (bits + 5)" by (rule acc_mod [OF d])
  finally have 1: "unat (shl v BITS_PER_CHAR OR word_of_int d) mod 2 ^ (bits + 5)
      = (U * 32 + nat d) mod 2 ^ (bits + 5)"
    by simp
  have 2: "(U * 32 + nat d) div 2 ^ (bits + 5) = U div 2 ^ bits"
    using acc_div [OF d, of U bits] by simp
  show ?thesis unfolding dec_inv_def using le 1 2 k o n by simp
qed

lemma dec_inv_emit:
  assumes "dec_inv U n bits v output k" "8 \<le> bits" "k < length output"
  shows "dec_inv U n (bits - 8) v (output[k := ucast (ushr v (bits - 8) AND BYTE_MASK)]) (k + 1)"
proof -
  from assms(1) have b: "bits \<le> 32" and v: "unat v mod 2 ^ bits = U mod 2 ^ bits"
    and o: "num 256 (map unat (take k output)) = U div 2 ^ bits" and n: "8 * k + bits = n"
    by (auto simp: dec_inv_def)
  let ?X = "U div 2 ^ (bits - 8)"
  let ?byte = "ucast (ushr v (bits - 8) AND BYTE_MASK) :: byte"
  have "unat ?byte = (unat v div 2 ^ (bits - 8)) mod 2 ^ 8"
    using b by (simp add: ushr_def BYTE_MASK_eq unat_window8)
  also have "\<dots> = unat v mod 2 ^ bits div 2 ^ (bits - 8)"
    using div_mod_window [of "unat v" "bits - 8" 8] assms(2) by simp
  also have "\<dots> = U mod 2 ^ bits div 2 ^ (bits - 8)" by (simp add: v)
  also have "\<dots> = ?X mod 2 ^ 8"
    using div_mod_window [of U "bits - 8" 8] assms(2) by simp
  finally have d: "unat ?byte = ?X mod 256" by simp
  have bits: "bits = (bits - 8) + 8" using assms(2) by simp
  have "U div 2 ^ bits = ?X div 2 ^ 8"
    using bits by (metis div_exp_eq)
  then have o': "num 256 (map unat (take k output)) = ?X div 256" using o by simp
  have t: "take (k + 1) (output[k := ?byte]) = take k output @ [?byte]"
    using assms(3) by (simp add: take_Suc_conv_app_nth)
  have X: "num 256 (map unat (take (k + 1) (output[k := ?byte]))) = ?X"
    unfolding t using o' d by simp
  have m: "unat v mod 2 ^ (bits - 8) = U mod 2 ^ (bits - 8)"
    using mod_mod_le [OF _ v, of "bits - 8"] by simp
  show ?thesis unfolding dec_inv_def using b X m n assms(2,3) by simp
qed

lemma dec_loop_inv:
  "dec_inv U n bits v out k \<Longrightarrow> bits < 8 \<Longrightarrow> \<forall>c\<in>set cs. in_class_AZ27 c \<Longrightarrow>
   n + 5 * length cs \<le> 8 * length out + 7 \<Longrightarrow>
   \<exists>out' k' bits' v'. dec_loop cs bits v out k = Inr (out', k') \<and> bits' < 8 \<and>
      length out' = length out \<and>
      dec_inv (foldl (\<lambda>a c. a * 32 + nat (charValue c)) U cs) (n + 5 * length cs) bits' v' out' k'"
proof (induction cs arbitrary: U n bits v out k)
  case Nil
  then show ?case by auto
next
  case (Cons c cs)
  let ?d = "charValue c"
  let ?v = "shl v BITS_PER_CHAR OR word_of_int ?d"
  have c: "in_class_AZ27 c" using Cons.prems(3) by simp
  note f = class_char [OF c]
  have i1: "dec_inv (U * 32 + nat ?d) (n + 5) (bits + 5) ?v out k"
    using Cons.prems(1,2) f(3,4) by (rule dec_inv_char)
  have rest: "\<forall>c\<in>set cs. in_class_AZ27 c" using Cons.prems(3) by simp
  have bound: "(n + 5) + 5 * length cs \<le> 8 * length out + 7" using Cons.prems(4) by simp
  show ?case
  proof (cases "8 \<le> bits + 5")
    case True
    have n: "8 * k + (bits + 5) = n + 5" using i1 by (simp add: dec_inv_def)
    with True bound have k: "k < length out" by simp
    let ?out = "out[k := ucast (ushr ?v (bits + 5 - 8) AND BYTE_MASK)]"
    have i2: "dec_inv (U * 32 + nat ?d) (n + 5) (bits + 5 - 8) ?v ?out (k + 1)"
      using i1 True k by (rule dec_inv_emit)
    have b2: "bits + 5 - 8 < 8" using Cons.prems(2) by simp
    have bound2: "(n + 5) + 5 * length cs \<le> 8 * length ?out + 7" using bound by simp
    from Cons.IH [OF i2 b2 rest bound2] True f(1,2) show ?thesis
      by (simp add: charValue_def BITS_PER_CHAR_def BITS_PER_BYTE_def Let_def add.assoc)
  next
    case False
    then have b2: "bits + 5 < 8" by simp
    from Cons.IH [OF i1 b2 rest bound] False f(1,2) show ?thesis
      by (simp add: charValue_def BITS_PER_CHAR_def BITS_PER_BYTE_def Let_def add.assoc)
  qed
qed

lemma decode_digits:
  assumes "toUpperCase (trim s) = t" "length t = 29" "\<forall>c\<in>set t. in_class_AZ27 c"
  shows "\<exists>bs. decode (Some s) = Inr bs \<and> length bs = 18 \<and>
           num 256 (map unat bs) = num 32 (map (\<lambda>c. nat (charValue c)) t) div 2"
proof -
  let ?U = "num 32 (map (\<lambda>c. nat (charValue c)) t)"
  have U: "foldl (\<lambda>a c. a * 32 + nat (charValue c)) 0 t = ?U" by (simp add: num_def foldl_map)
  have "dec_inv 0 0 0 0 (replicate 18 0) 0" by (simp add: dec_inv_def)
  from dec_loop_inv [OF this _ assms(3)] obtain out k bits v where
    r: "dec_loop t 0 0 (replicate 18 0) 0 = Inr (out, k)" "bits < 8" "length out = 18"
       "dec_inv ?U 145 bits v out k"
    unfolding U using assms(2) by auto
  from r(4) have k: "8 * k + bits = 145" and o: "num 256 (map unat (take k out)) = ?U div 2 ^ bits"
    by (auto simp: dec_inv_def)
  from count_145 [OF k r(2)] have bits: "bits = 1" and k18: "k = 18" by simp_all
  from o r(3) have "num 256 (map unat out) = ?U div 2" by (simp add: bits k18)
  then show ?thesis using r(1,3) assms(1,2) k18
    by (simp add: decode_def VID_STRING_CHARS_def VID_BINARY_BYTES_def BITS_PER_BYTE_def
        BITS_PER_CHAR_def)
qed

section \<open>Round trips\<close>

lemma roundtrip_bytes:
  assumes "length b = 18"
  shows "\<exists>s. encode (Some b) = Inr s \<and> length s = 29 \<and> (\<forall>c\<in>set s. in_class_AZ27 c)
           \<and> decode (Some s) = Inr b"
proof -
  from encode_digits [OF assms] obtain ds where
    ds: "encode (Some b) = Inr (map (\<lambda>d. ALPHABET ! d) ds)"
     "length ds = 29" "\<forall>d\<in>set ds. d < 32" "num 32 ds = 2 * num 256 (map unat b)" by blast
  let ?s = "map (\<lambda>d. ALPHABET ! d) ds"
  have cls: "\<forall>c\<in>set ?s. in_class_AZ27 c" using ds(3) alphabet_char(1) by auto
  have idx: "map (\<lambda>c. nat (charValue c)) ?s = ds"
    using ds(3) alphabet_char(2) by (simp add: map_idI)
  from decode_digits [OF normalize_class [OF cls] _ cls] ds(2) obtain bs where
    bs: "decode (Some ?s) = Inr bs" "length bs = 18"
        "num 256 (map unat bs) = num 32 (map (\<lambda>c. nat (charValue c)) ?s) div 2" by auto
  from bs(3) have "num 256 (map unat bs) = num 256 (map unat b)" unfolding idx ds(4) by simp
  with bs(2) assms have "bs = b" by (intro num_bytes_inj) simp_all
  with ds(1,2) bs(1) cls show ?thesis by simp
qed

lemma clear_low_bit: "2 * ((a * 32 + l) div 2) = a * 32 + 2 * (l div 2)" for a l :: nat
proof -
  have "a * 32 + l = 2 * (a * 16) + l" by simp
  then have "(a * 32 + l) div 2 = a * 16 + l div 2" by (simp only: div_mult_self4)
  then show ?thesis by simp
qed

lemma even_fix: "2 * ((l::nat) div 2) = l \<longleftrightarrow> even l"
  by (metis dvd_triv_left even_two_times_div_two)

lemma class_idx_less: "in_class_AZ27 c \<Longrightarrow> nat (charValue c) < 32"
  using class_char(3,4) [of c] by simp

lemma roundtrip_string:
  assumes "toUpperCase (trim s) = t" "length t = 29" "\<forall>c\<in>set t. in_class_AZ27 c"
  shows "\<exists>b. decode (Some s) = Inr b \<and> length b = 18 \<and>
           encode (Some b) = Inr (butlast t @ [ALPHABET ! (2 * (nat (charValue (last t)) div 2))])"
proof -
  let ?idx = "\<lambda>c. nat (charValue c)"
  let ?al = "\<lambda>d. ALPHABET ! d"
  let ?ds = "map ?idx t"
  from decode_digits [OF assms] obtain b where
    b: "decode (Some s) = Inr b" "length b = 18" "num 256 (map unat b) = num 32 ?ds div 2" by blast
  from encode_digits [OF b(2)] obtain es where
    es: "encode (Some b) = Inr (map ?al es)" "length es = 29" "\<forall>d\<in>set es. d < 32"
        "num 32 es = 2 * num 256 (map unat b)" by blast
  have ne: "t \<noteq> []" using assms(2) by auto
  then have t: "t = butlast t @ [last t]" by simp
  let ?l = "?idx (last t)"
  let ?fs = "map ?idx (butlast t) @ [2 * (?l div 2)]"
  have ds: "?ds = map ?idx (butlast t) @ [?l]"
    by (subst t) (simp only: map_append list.map)
  have lt: "\<forall>c\<in>set t. ?idx c < 32"
    using assms(3) class_idx_less by blast
  have l32: "?l < 32" using lt ne by simp
  have "num 32 es = 2 * (num 32 ?ds div 2)" using es(4) b(3) by simp
  also have "\<dots> = num 32 ?fs" unfolding ds num_snoc by (rule clear_low_bit)
  finally have eq: "num 32 es = num 32 ?fs" .
  have len: "length es = length ?fs" using es(2) assms(2) by simp
  have fs32: "\<forall>d\<in>set ?fs. d < 32"
    using lt l32 by (auto dest: in_set_butlastD)
  have "es = ?fs" using len es(3) fs32 eq by (rule num_inj)
  moreover have "map ?al (map ?idx (butlast t)) = butlast t"
    using assms(3) class_char(5) by (auto intro!: map_idI dest: in_set_butlastD)
  ultimately have "map ?al es = butlast t @ [?al (2 * (?l div 2))]" by simp
  with b es(1) show ?thesis by simp
qed

lemma alphabet_inj:
  assumes "d < 32" "e < 32" "ALPHABET ! d = ALPHABET ! e"
  shows "d = e"
proof -
  have "int d = charValue (ALPHABET ! d)" using alphabet_char(2) [OF assms(1)] by simp
  also have "\<dots> = charValue (ALPHABET ! e)" by (simp only: assms(3))
  also have "\<dots> = int e" by (rule alphabet_char(2) [OF assms(2)])
  finally show ?thesis by simp
qed

lemma decode_of_encode:
  assumes "length b = 18" "encode (Some b) = Inr s"
  shows "decode (Some s) = Inr b"
  using roundtrip_bytes [OF assms(1)] assms(2) by auto

lemma encode_zeros:
  "encode (Some [0, 0, 0, 0, 0, 0, 0, 0, 0, 0, 0, 0, 0, 0, 0, 0, 0, 0]) = Inr ''AAAAAAAAAAAAAAAAAAAAAAAAAAAAA''"
  by code_simp

lemma encode_sample:
  "encode (Some [1, 2, 3, 4, 5, 6, 7, 8, 9, 10, 11, 12, 13, 14, 15, 16, 17, 255])
     = Inr ''AEBAGBAFAYDQQCIKBMGA2DQPCAI76''"
  by code_simp

lemma eq_char_of: "(c = char_of (n::nat)) \<longleftrightarrow> take_bit 8 n = of_char c"
  using char_of_eq_iff [of n c] by auto

lemma charValue_B: "charValue CHR ''B'' = 1"
  by (simp add: charValue_def charCode_def DECODE_LOOKUP_nth lookup_closed_def)

lemma charValue_S: "charValue CHR ''S'' = 18"
  by (simp add: charValue_def charCode_def DECODE_LOOKUP_nth lookup_closed_def)

lemma charValue_6: "charValue CHR ''6'' = 30"
  by (simp add: charValue_def charCode_def DECODE_LOOKUP_nth lookup_closed_def)

lemma ALPHABET_0: "ALPHABET ! 0 = CHR ''A''"
  by (simp add: ALPHABET_def)

lemma ALPHABET_30: "ALPHABET ! 30 = CHR ''6''"
  by (simp add: ALPHABET_def)

text \<open>
  C3.  For every 18-byte array \<open>b\<close>, \<open>encode\<close> returns a string of 29 characters and
  \<open>decode\<close> of that string returns \<open>b\<close>.
\<close>

theorem C3_decode_encode_roundtrip:
  assumes "length b = 18"
  shows "\<exists>s. encode (Some b) = Inr s \<and> length s = 29 \<and> decode (Some s) = Inr b"
  using roundtrip_bytes [OF assms] by blast

theorem C3_decode_encode_roundtrip_witness:
  "encode (Some [1, 2, 3, 4, 5, 6, 7, 8, 9, 10, 11, 12, 13, 14, 15, 16, 17, 255])
     = Inr ''AEBAGBAFAYDQQCIKBMGA2DQPCAI76''
   \<and> decode (Some ''AEBAGBAFAYDQQCIKBMGA2DQPCAI76'')
     = Inr [1, 2, 3, 4, 5, 6, 7, 8, 9, 10, 11, 12, 13, 14, 15, 16, 17, 255]"
  using C3_decode_encode_roundtrip [of "[1, 2, 3, 4, 5, 6, 7, 8, 9, 10, 11, 12, 13, 14, 15, 16, 17, 255]"]
    encode_sample
  by simp

text \<open>
  C4, as stated, fails: \<open>decode\<close> drops the last of the 145 bits of a 29-character string,
  so a string whose last character has an odd value does not come back.  The string of 28
  letters A and one B is in normal form, decodes to 18 zero bytes, and these encode to 29
  letters A.
\<close>

theorem C4_encode_decode_counterexample:
  "toUpperCase (trim ''AAAAAAAAAAAAAAAAAAAAAAAAAAAAB'') = ''AAAAAAAAAAAAAAAAAAAAAAAAAAAAB''
   \<and> decode (Some ''AAAAAAAAAAAAAAAAAAAAAAAAAAAAB'')
       = Inr [0, 0, 0, 0, 0, 0, 0, 0, 0, 0, 0, 0, 0, 0, 0, 0, 0, 0]
   \<and> encode (Some [0, 0, 0, 0, 0, 0, 0, 0, 0, 0, 0, 0, 0, 0, 0, 0, 0, 0])
       = Inr ''AAAAAAAAAAAAAAAAAAAAAAAAAAAAA''"
proof -
  let ?s = "''AAAAAAAAAAAAAAAAAAAAAAAAAAAAB''"
  let ?z = "[0, 0, 0, 0, 0, 0, 0, 0, 0, 0, 0, 0, 0, 0, 0, 0, 0, 0] :: bytes"
  have cls: "\<forall>c\<in>set ?s. in_class_AZ27 c" by (simp add: in_class_AZ27_def charCode_def)
  have n: "toUpperCase (trim ?s) = ?s" using cls by (rule normalize_class)
  from roundtrip_string [OF n _ cls] obtain b where
    b: "decode (Some ?s) = Inr b" "length b = 18"
       "encode (Some b) = Inr (butlast ?s @ [ALPHABET ! (2 * (nat (charValue (last ?s)) div 2))])"
    by auto
  have "encode (Some b) = Inr ''AAAAAAAAAAAAAAAAAAAAAAAAAAAAA''"
    using b(3) by (simp add: charValue_B ALPHABET_0)
  from decode_of_encode [OF b(2) this] decode_of_encode [OF _ encode_zeros]
  have "b = ?z" by simp
  with b(1) n encode_zeros show ?thesis by simp
qed

lemma encode_last_even:
  assumes "length b = 18"
  shows "\<exists>e. encode (Some b) = Inr e \<and> toUpperCase (trim e) = e \<and> length e = 29
           \<and> list_all in_class_AZ27 e \<and> even (charValue (last e))"
proof -
  from roundtrip_bytes [OF assms] obtain e where
    e: "encode (Some b) = Inr e" "length e = 29" "\<forall>c\<in>set e. in_class_AZ27 c"
       "decode (Some e) = Inr b" by blast
  have n: "toUpperCase (trim e) = e" using e(3) by (rule normalize_class)
  let ?l = "nat (charValue (last e))"
  from roundtrip_string [OF n e(2,3)] e(4)
  have "encode (Some b) = Inr (butlast e @ [ALPHABET ! (2 * (?l div 2))])" by auto
  with e(1) have eq: "e = butlast e @ [ALPHABET ! (2 * (?l div 2))]" by simp
  have "last e = last (butlast e @ [ALPHABET ! (2 * (?l div 2))])" by (rule arg_cong [OF eq])
  then have l: "last e = ALPHABET ! (2 * (?l div 2))" by simp
  have ne: "e \<noteq> []" using e(2) by auto
  have "?l < 32" using e(3) ne by (intro class_idx_less) simp
  then have "2 * (?l div 2) < 32" by simp
  from alphabet_char(2) [OF this] have cv: "charValue (last e) = int (2 * (?l div 2))"
    by (simp only: l [symmetric])
  have "even (charValue (last e))" by (subst cv) simp
  with e(1,2,3) n show ?thesis by (simp add: list_all_iff)
qed

lemma encode_sharp_s:
  "encode (Some [0, 0, 0, 0, 0, 0, 0, 0, 0, 0, 0, 0, 0, 0, 0, 0, 1, 41])
     = Inr ''AAAAAAAAAAAAAAAAAAAAAAAAAAASS''"
  by code_simp

lemma upper_sharp_s:
  "toUpperCase (trim (''aaaaaaaaaaaaaaaaaaaaaaaaaaa'' @ [CHR 0xDF])) = ''AAAAAAAAAAAAAAAAAAAAAAAAAAASS''"
  by (simp add: toUpperCase_def trim_def is_white_space_def upper_char_def charCode_def
      eq_char_of char_of_eq_iff)

text \<open>
  C4, amended.  For a string \<open>s\<close> whose trimmed, uppercased form \<open>t\<close> has 29 characters of
  the alphabet, \<open>decode\<close> returns 18 bytes and \<open>encode\<close> of them returns \<open>t\<close> with the
  lowest bit of the value of its last character cleared; this is \<open>t\<close> itself exactly
  when the value of the last character is even.  Every string that \<open>encode\<close> produces is
  such a string: it is in normal form, has 29 characters of the alphabet, and the value of
  its last character is even.
\<close>

theorem C4_encode_decode_amended:
  "(t = toUpperCase (trim s) \<and> length t = 29 \<and> list_all in_class_AZ27 t \<longrightarrow>
      (\<exists>b. decode (Some s) = Inr b \<and> length b = 18
           \<and> encode (Some b) = Inr (butlast t @ [ALPHABET ! (2 * (nat (charValue (last t)) div 2))])
           \<and> (encode (Some b) = Inr t \<longleftrightarrow> even (charValue (last t)))))
   \<and> (length b0 = 18 \<longrightarrow>
      (\<exists>e. encode (Some b0) = Inr e \<and> toUpperCase (trim e) = e \<and> length e = 29
           \<and> list_all in_class_AZ27 e \<and> even (charValue (last e))))"
proof (intro conjI impI)
  assume a: "t = toUpperCase (trim s) \<and> length t = 29 \<and> list_all in_class_AZ27 t"
  then have n: "toUpperCase (trim s) = t" and len: "length t = 29" by blast+
  have cls: "\<forall>c\<in>set t. in_class_AZ27 c" using a by (simp add: list_all_iff)
  from roundtrip_string [OF n len cls] obtain b where
    b: "decode (Some s) = Inr b" "length b = 18"
       "encode (Some b) = Inr (butlast t @ [ALPHABET ! (2 * (nat (charValue (last t)) div 2))])"
    by blast
  have ne: "t \<noteq> []" using len by auto
  then have t: "butlast t @ [last t] = t" by simp
  have lc: "in_class_AZ27 (last t)" using cls ne by simp
  let ?l = "nat (charValue (last t))"
  have l32: "?l < 32" using lc by (rule class_idx_less)
  have al: "ALPHABET ! ?l = last t" using lc by (rule class_char(5))
  have "encode (Some b) = Inr t \<longleftrightarrow> butlast t @ [ALPHABET ! (2 * (?l div 2))] = butlast t @ [last t]"
    unfolding b(3) t by simp
  also have "\<dots> \<longleftrightarrow> ALPHABET ! (2 * (?l div 2)) = ALPHABET ! ?l" by (simp add: al)
  also have "\<dots> \<longleftrightarrow> 2 * (?l div 2) = ?l"
    using alphabet_inj [of "2 * (?l div 2)" ?l] l32 by auto
  also have "\<dots> \<longleftrightarrow> even ?l" by (rule even_fix)
  also have "\<dots> \<longleftrightarrow> even (charValue (last t))"
    using class_char(3) [OF lc] by (simp add: even_nat_iff)
  finally show "\<exists>b. decode (Some s) = Inr b \<and> length b = 18
           \<and> encode (Some b) = Inr (butlast t @ [ALPHABET ! (2 * (nat (charValue (last t)) div 2))])
           \<and> (encode (Some b) = Inr t \<longleftrightarrow> even (charValue (last t)))"
    using b by blast
next
  assume "length b0 = 18"
  then show "\<exists>e. encode (Some b0) = Inr e \<and> toUpperCase (trim e) = e \<and> length e = 29
           \<and> list_all in_class_AZ27 e \<and> even (charValue (last e))"
    by (rule encode_last_even)
qed

theorem C4_encode_decode_amended_witness:
  "decode (Some (''aaaaaaaaaaaaaaaaaaaaaaaaaaa'' @ [CHR 0xDF]))
     = Inr [0, 0, 0, 0, 0, 0, 0, 0, 0, 0, 0, 0, 0, 0, 0, 0, 1, 41]
   \<and> encode (Some [0, 0, 0, 0, 0, 0, 0, 0, 0, 0, 0, 0, 0, 0, 0, 0, 1, 41])
     = Inr ''AAAAAAAAAAAAAAAAAAAAAAAAAAASS''
   \<and> even (charValue CHR ''S'')
   \<and> decode (Some '' aebagbafaydqqcikbmga2dqpcai76 '')
     = Inr [1, 2, 3, 4, 5, 6, 7, 8, 9, 10, 11, 12, 13, 14, 15, 16, 17, 255]
   \<and> encode (Some [1, 2, 3, 4, 5, 6, 7, 8, 9, 10, 11, 12, 13, 14, 15, 16, 17, 255])
     = Inr ''AEBAGBAFAYDQQCIKBMGA2DQPCAI76''
   \<and> toUpperCase (trim ''AEBAGBAFAYDQQCIKBMGA2DQPCAI76'') = ''AEBAGBAFAYDQQCIKBMGA2DQPCAI76''
   \<and> even (charValue CHR ''6'')"
proof -
  let ?s = "'' aebagbafaydqqcikbmga2dqpcai76 ''"
  let ?t = "''AEBAGBAFAYDQQCIKBMGA2DQPCAI76''"
  let ?b = "[1, 2, 3, 4, 5, 6, 7, 8, 9, 10, 11, 12, 13, 14, 15, 16, 17, 255] :: bytes"
  let ?s2 = "''aaaaaaaaaaaaaaaaaaaaaaaaaaa'' @ [CHR 0xDF]"
  let ?t2 = "''AAAAAAAAAAAAAAAAAAAAAAAAAAASS''"
  let ?b2 = "[0, 0, 0, 0, 0, 0, 0, 0, 0, 0, 0, 0, 0, 0, 0, 0, 1, 41] :: bytes"
  have n: "?t = toUpperCase (trim ?s)"
    by (simp add: toUpperCase_def trim_def is_white_space_def upper_char_def charCode_def eq_char_of)
  have c: "list_all in_class_AZ27 ?t"
    by (simp add: in_class_AZ27_def charCode_def)
  have c2: "list_all in_class_AZ27 ?t2"
    by (simp add: in_class_AZ27_def charCode_def)
  have h1: "?t = toUpperCase (trim ?s) \<and> length ?t = 29 \<and> list_all in_class_AZ27 ?t"
    by (intro conjI n c) simp
  have h2: "?t2 = toUpperCase (trim ?s2) \<and> length ?t2 = 29 \<and> list_all in_class_AZ27 ?t2"
    by (intro conjI upper_sharp_s [symmetric] c2) simp
  have lb: "length ?b = 18" by simp
  from C4_encode_decode_amended [of ?t ?s ?b, THEN conjunct1, THEN mp, OF h1] obtain b where
    b: "decode (Some ?s) = Inr b" "length b = 18" "encode (Some b) = Inr ?t"
    by (auto simp: charValue_6)
  from C4_encode_decode_amended [of ?t ?s ?b, THEN conjunct2, THEN mp, OF lb] obtain e where
    e: "encode (Some ?b) = Inr e" "toUpperCase (trim e) = e" "even (charValue (last e))"
    by blast
  from C4_encode_decode_amended [of ?t2 ?s2 ?b2, THEN conjunct1, THEN mp, OF h2] obtain b2 where
    b2: "decode (Some ?s2) = Inr b2" "length b2 = 18" "encode (Some b2) = Inr ?t2"
    by (auto simp: charValue_S)
  from decode_of_encode [OF b(2,3)] decode_of_encode [OF _ encode_sample]
  have "b = ?b" by simp
  moreover from decode_of_encode [OF b2(2,3)] decode_of_encode [OF _ encode_sharp_s]
  have "b2 = ?b2" by simp
  moreover from e(1) encode_sample have "e = ?t" by simp
  ultimately show ?thesis
    using b(1) b2(1) e(2,3) encode_sample encode_sharp_s by (simp add: charValue_6 charValue_S)
qed

section \<open>Properties of HMACSigner\<close>

text \<open>
  C1.  For every non-empty payload and every secret of at least 32 bytes, with an HMAC
  whose digest has 32 bytes, \<open>sign\<close> returns the first seven digest bytes and \<open>verify\<close>
  accepts that signature under the same secret.
\<close>

theorem C1_sign_then_verify:
  assumes "length p \<ge> 1" and "length k \<ge> 32" and "length (hmac k p) = 32"
  shows "sign hmac (Some p) (Some k) = Inr (take 7 (hmac k p))
         \<and> verify hmac (Some p) (Some (take 7 (hmac k p))) (Some k) = Inr True"
  using assms
  by (auto simp add: sign_def verify_def validatePayload_def validateSecret_def
      timingSafeEqual_def SIGNATURE_BYTES_def MIN_SECRET_BYTES_def MIN_PAYLOAD_BYTES_def)

theorem C1_sign_then_verify_witness:
  "sign toy_hmac (Some [1, 2, 3]) (Some (replicate 32 7)) = Inr (take 7 (toy_hmac (replicate 32 7) [1, 2, 3]))
   \<and> verify toy_hmac (Some [1, 2, 3]) (Some (take 7 (toy_hmac (replicate 32 7) [1, 2, 3])))
        (Some (replicate 32 7)) = Inr True"
  using C1_sign_then_verify [of "[1, 2, 3]" "replicate 32 7" toy_hmac]
  by (simp add: toy_hmac_def)

text \<open>
  C6.  \<open>verify\<close> never throws: it returns a boolean for every combination of arguments,
  and it returns \<open>false\<close> whenever an argument is not a byte array, the payload is empty,
  the secret is shorter than 32 bytes or the signature is not 7 bytes long.
\<close>

theorem C6_verify_never_throws:
  "(\<exists>b. verify hmac payload signature secret = Inr b)
   \<and> ((payload = None \<or> signature = None \<or> secret = None
        \<or> (\<exists>p. payload = Some p \<and> length p < 1)
        \<or> (\<exists>k. secret = Some k \<and> length k < 32)
        \<or> (\<exists>s. signature = Some s \<and> length s \<noteq> 7))
       \<longrightarrow> verify hmac payload signature secret = Inr False)"
  by (auto simp add: sign_def verify_def validatePayload_def validateSecret_def
      timingSafeEqual_def SIGNATURE_BYTES_def MIN_SECRET_BYTES_def MIN_PAYLOAD_BYTES_def Let_def
      split: option.splits sum.splits)

theorem C6_verify_never_throws_witness:
  "verify toy_hmac (Some [1, 2, 3]) (Some [0, 0, 0]) (Some (replicate 32 7)) = Inr False
   \<and> verify toy_hmac None (Some [0, 0, 0, 0, 0, 0, 0]) (Some [1]) = Inr False"
  using C6_verify_never_throws [of toy_hmac "Some [1, 2, 3]" "Some [0, 0, 0]" "Some (replicate 32 7)"]
    C6_verify_never_throws [of toy_hmac None "Some [0, 0, 0, 0, 0, 0, 0]" "Some [1]"]
  by simp

section \<open>Properties of VIDValue\<close>

text \<open>
  C10.  \<open>VIDValue.fromString\<close> throws on every input and never returns a \<open>VIDValue\<close>:
  a string passes the length guard only with 29 characters after trimming and uppercasing,
  the regular expression accepts only strings of 26 characters, and no string has both
  lengths.  \<open>VIDMongoAdapter.fromString\<close> calls it first and throws the same error.
\<close>

theorem C10_fromString_always_throws:
  "(\<exists>e. fromString h input = Inl e \<and> VIDMongoAdapter_fromString h input = Inl e)
   \<and> \<not> (length t = VID_STRING_LENGTH \<and> VID_STRING_REGEX t)"
  by (auto simp add: fromString_def VIDMongoAdapter_fromString_def VID_STRING_LENGTH_def
      VID_STRING_REGEX_def regex_AZ27_def Let_def split: option.splits)

theorem C10_fromString_always_throws_witness:
  "fromString [] (Some ''AEBAGBAFAYDQQCIKBMGA2DQPCAI76'') = Inl GenericError
   \<and> VIDMongoAdapter_fromString [] (Some ''AEBAGBAFAYDQQCIKBMGA2DQPCAI76'') = Inl GenericError
   \<and> \<not> (length ''AEBAGBAFAYDQQCIKBMGA2DQPCAI76'' = VID_STRING_LENGTH
          \<and> VID_STRING_REGEX ''AEBAGBAFAYDQQCIKBMGA2DQPCAI76'')"
proof -
  have n: "toUpperCase (trim ''AEBAGBAFAYDQQCIKBMGA2DQPCAI76'') = ''AEBAGBAFAYDQQCIKBMGA2DQPCAI76''"
    by (rule normalize_class) (simp add: in_class_AZ27_def charCode_def)
  have "fromString [] (Some ''AEBAGBAFAYDQQCIKBMGA2DQPCAI76'') = Inl GenericError"
    by (simp add: fromString_def n VID_STRING_LENGTH_def VID_STRING_REGEX_def regex_AZ27_def)
  with C10_fromString_always_throws [of "[]" "Some ''AEBAGBAFAYDQQCIKBMGA2DQPCAI76''"
      "''AEBAGBAFAYDQQCIKBMGA2DQPCAI76''"]
  show ?thesis by auto
qed

text \<open>
  \<open>toBinary\<close> returns a fresh array: its address is new, it holds the bytes of the
  identifier, and a write to it leaves the array of the identifier as it was.
\<close>

lemma toBinary_fresh_copy:
  assumes "binary v < length h" "toBinary h v = (a, h1)"
  shows "a = length h" "a \<noteq> binary v" "h1 ! a = h ! binary v"
    "store_byte h1 a i x ! binary v = h ! binary v"
  using assms by (auto simp: toBinary_def alloc_def store_byte_def nth_append)

text \<open>
  C9 fails on the code.  The constructor stores the reference it is given
  (\<open>this.binary = binary\<close>) although its documentation promises a defensive copy: after
  \<open>b = new Uint8Array(18)\<close>, \<open>v = new VIDValue(b)\<close> and \<open>b[0] = 1\<close>, the array that
  \<open>v.toBinary()\<close> returns starts with 1.
\<close>

theorem C9_constructor_keeps_reference:
  "VIDValue_new [[0, 0, 0, 0, 0, 0, 0, 0, 0, 0, 0, 0, 0, 0, 0, 0, 0, 0]] (Some 0)
     = Inr \<lparr>binary = 0, cachedString = Some ''AAAAAAAAAAAAAAAAAAAAAAAAAAAAA''\<rparr>
   \<and> toBinary (store_byte [[0, 0, 0, 0, 0, 0, 0, 0, 0, 0, 0, 0, 0, 0, 0, 0, 0, 0]] 0 0 1)
        \<lparr>binary = 0, cachedString = Some ''AAAAAAAAAAAAAAAAAAAAAAAAAAAAA''\<rparr>
     = (1, [[1, 0, 0, 0, 0, 0, 0, 0, 0, 0, 0, 0, 0, 0, 0, 0, 0, 0],
            [1, 0, 0, 0, 0, 0, 0, 0, 0, 0, 0, 0, 0, 0, 0, 0, 0, 0]])"
  by (simp add: VIDValue_new_def VID_BYTE_LENGTH_def encode_zeros toBinary_def alloc_def
      store_byte_def)

section \<open>Properties of NodeIdResolver\<close>

lemma shift_or_bytes:
  "unat (shl (ucast (a :: byte)) 8 OR ucast (b :: byte) :: 32 word) = unat a * 256 + unat b"
proof -
  have a: "unat (ucast a :: 32 word) = unat a"
    by (simp add: unsigned_ucast_eq take_bit_nat_eq_self less_trans [OF unat_byte_less])
  have "unat (push_bit 8 (ucast a :: 32 word) OR ucast b) mod 2 ^ (24 + 8)
      = (unat (ucast a :: 32 word) mod 2 ^ 24) * 256 + unat b"
    by (rule accumulate_byte) simp
  moreover have "unat (push_bit 8 (ucast a :: 32 word) OR ucast b) < 2 ^ 32"
    using unsigned_less [of "push_bit 8 (ucast a :: 32 word) OR ucast b"] by simp
  moreover have "unat a mod 2 ^ 24 = unat a"
    using unat_byte_less [of a] by simp
  ultimately show ?thesis by (simp add: a shl_def)
qed

lemma hashToUint16_value:
  assumes "2 \<le> length (sha x)"
  shows "hashToUint16 sha x = 256 * uint (sha x ! 0) + uint (sha x ! 1)"
proof -
  let ?a = "sha x ! 0" and ?b = "sha x ! 1"
  let ?w = "shl (ucast ?a) 8 OR ucast ?b :: 32 word"
  have "unat ?w = unat ?a * 256 + unat ?b" by (rule shift_or_bytes)
  then have "int (unat ?w) = int (unat ?a * 256 + unat ?b)" by (rule arg_cong)
  then have u: "uint ?w = uint ?a * 256 + uint ?b" by simp
  have "uint ?a < 2 ^ 8" "uint ?b < 2 ^ 8"
    using uint_lt2p [of ?a] uint_lt2p [of ?b] by simp_all
  with u have lt: "uint ?w < 2 ^ 31" by simp
  have ge: "- (2 ^ 31) \<le> uint ?w" by (rule order_trans [OF _ uint_ge_0]) simp
  have "sint ?w = signed_take_bit 31 (uint ?w)" by (simp add: sint_uint)
  also have "\<dots> = uint ?w" using ge lt by (rule signed_take_bit_int_eq_self)
  finally have "sint ?w = uint ?a * 256 + uint ?b" by (simp only: u)
  moreover have "0 < length (sha x)" "1 < length (sha x)" using assms by auto
  then have "hashToUint16 sha x = sint ?w"
    by (simp add: hashToUint16_def byte_operand_def Let_def)
  ultimately show ?thesis by simp
qed

text \<open>
  C8.  \<open>resolve\<close> maps an explicit string that is not empty after trimming to the
  16-bit number whose high byte is the first and whose low byte is the second byte of the
  SHA-256 digest of the trimmed string, whatever the environment holds; it returns an
  explicit integer from 0 to 65535 as it is; and it throws for a string that is empty after
  trimming, for an integer outside 0 to 65535 and for a number that is not an integer.
\<close>

theorem C8_resolve_explicit:
  "(trim s \<noteq> [] \<and> length (sha (trim s)) = 32 \<longrightarrow>
      resolve sha env (NodeString s)
        = Inr \<lparr>nodeId = 256 * uint (sha (trim s) ! 0) + uint (sha (trim s) ! 1),
               source = explicit_string, warning = None\<rparr>)
   \<and> (0 \<le> n \<and> n \<le> 65535 \<longrightarrow>
        resolve sha env (NodeNumber (JInt n))
          = Inr \<lparr>nodeId = n, source = explicit_number, warning = None\<rparr>)
   \<and> (trim s = [] \<longrightarrow> resolve sha env (NodeString s) = Inl TypeError)
   \<and> (n < 0 \<or> 65535 < n \<longrightarrow> resolve sha env (NodeNumber (JInt n)) = Inl RangeError)
   \<and> resolve sha env (NodeNumber JNonInt) = Inl RangeError"
  by (auto simp add: resolve_def MAX_UINT16_def hashToUint16_value)

theorem C8_resolve_explicit_witness:
  "resolve toy_sha \<lparr>POD_IP = Some ''10.0.0.1'', HOSTNAME = None, randomInt = 5\<rparr> (NodeString '' ab '')
     = Inr \<lparr>nodeId = 24930, source = explicit_string, warning = None\<rparr>
   \<and> resolve toy_sha \<lparr>POD_IP = Some ''10.0.0.1'', HOSTNAME = None, randomInt = 5\<rparr> (NodeNumber (JInt 42))
     = Inr \<lparr>nodeId = 42, source = explicit_number, warning = None\<rparr>
   \<and> resolve toy_sha \<lparr>POD_IP = Some ''10.0.0.1'', HOSTNAME = None, randomInt = 5\<rparr> (NodeString ''  '')
     = Inl TypeError
   \<and> resolve toy_sha \<lparr>POD_IP = Some ''10.0.0.1'', HOSTNAME = None, randomInt = 5\<rparr> (NodeNumber (JInt 65536))
     = Inl RangeError"
proof -
  have t1: "trim '' ab '' = ''ab''" by (simp add: trim_def is_white_space_def charCode_def)
  have t2: "trim ''  '' = []" by (simp add: trim_def is_white_space_def charCode_def)
  have d: "toy_sha ''ab'' = [97, 98] @ replicate 30 0" by (simp add: toy_sha_def)
  from C8_resolve_explicit [of "'' ab ''" toy_sha _ 42]
       C8_resolve_explicit [of "''  ''" toy_sha _ 65536]
  show ?thesis unfolding t1 t2 d by simp
qed


section \<open>Properties of VIDVerifier on malformed input\<close>

text \<open>
  C7, as stated, fails: the string \<open>not-base32!!\<close> has 12 characters, and the verifier
  checks the length before the characters.
\<close>

theorem C7_malformed_counterexample:
  "verifyDetailed toy_hmac [] (InString ''not-base32!!'') [(JInt 1, replicate 32 7)]
     = Inr (Invalid INVALID_STRING_LENGTH)
   \<and> INVALID_STRING_LENGTH \<noteq> INVALID_STRING_CHARS"
  by (simp add: verifyDetailed_def validateKeys_def normalizeToBinary_def toUpperCase_def
      upper_char_def trim_def is_white_space_def charCode_def VID_STRING_LENGTH_def)

text \<open>
  C7, amended.  With a keyset that \<open>validateKeys\<close> accepts, the verifier returns
  \<open>INVALID_STRING_LENGTH\<close> for the 12-character string \<open>not-base32!!\<close>,
  \<open>INVALID_STRING_CHARS\<close> for a string of 29 characters that are not all in the
  alphabet, such as \<open>not-base32!!not-base32!!ABCDE\<close>, and \<open>INVALID_BINARY_LENGTH\<close>
  for 17 zero bytes.
\<close>

theorem C7_malformed_amended:
  assumes "validateKeys keys = Inr ()"
  shows "verifyDetailed hmac h (InString ''not-base32!!'') keys = Inr (Invalid INVALID_STRING_LENGTH)
    \<and> verifyDetailed hmac h (InString ''not-base32!!not-base32!!ABCDE'') keys
        = Inr (Invalid INVALID_STRING_CHARS)
    \<and> verifyDetailed hmac h (InUint8Array (replicate 17 0)) keys
        = Inr (Invalid INVALID_BINARY_LENGTH)"
proof -
  have n: "toUpperCase (trim ''not-base32!!not-base32!!ABCDE'') = ''NOT-BASE32!!NOT-BASE32!!ABCDE''"
    by (simp add: toUpperCase_def trim_def is_white_space_def upper_char_def charCode_def
        eq_char_of char_of_eq_iff)
  have c: "\<not> list_all in_class_AZ27 ''NOT-BASE32!!NOT-BASE32!!ABCDE''"
    by (simp add: in_class_AZ27_def charCode_def)
  have l: "length (toUpperCase (trim ''not-base32!!'')) = 12"
    by (simp add: toUpperCase_def upper_char_def trim_def is_white_space_def charCode_def)
  show ?thesis
    using assms c
    by (simp add: verifyDetailed_def normalizeToBinary_def n l VID_STRING_LENGTH_def
        VID_BYTE_LENGTH_def BASE32_REGEX_def regex_AZ27_def Let_def)
qed

theorem C7_malformed_amended_witness:
  "verifyDetailed toy_hmac [] (InString ''not-base32!!'') [(JInt 1, replicate 32 7)]
     = Inr (Invalid INVALID_STRING_LENGTH)
   \<and> verifyDetailed toy_hmac [] (InString ''not-base32!!not-base32!!ABCDE'') [(JInt 1, replicate 32 7)]
     = Inr (Invalid INVALID_STRING_CHARS)
   \<and> verifyDetailed toy_hmac [] (InUint8Array (replicate 17 0)) [(JInt 1, replicate 32 7)]
     = Inr (Invalid INVALID_BINARY_LENGTH)"
proof -
  have k: "validateKeys [(JInt 1, replicate 32 7)] = Inr ()" by (simp add: validateKeys_def)
  from C7_malformed_amended [OF k, of toy_hmac "[]"] show ?thesis .
qed

section \<open>Big-endian fields\<close>

lemma length_be_bytes [simp]: "length (be_bytes n v) = n"
  by (induction n arbitrary: v) auto

lemma be_value_snoc: "be_value (bs @ [b]) = be_value bs * 256 + unat b"
  by (simp add: be_value_def)

lemma unat_byte_of_int: "unat (word_of_int v :: byte) = nat (v mod 256)"
  by (simp add: unat_eq_nat_uint uint_word_of_int take_bit_eq_mod)

lemma be_value_be_bytes: "0 \<le> v \<Longrightarrow> int (be_value (be_bytes n v)) = v mod 256 ^ n"
proof (induction n arbitrary: v)
  case 0
  then show ?case by (simp add: be_value_def)
next
  case (Suc n)
  have d: "0 \<le> v div 256" using Suc.prems by simp
  have "int (be_value (be_bytes (Suc n) v)) = int (be_value (be_bytes n (v div 256))) * 256 + v mod 256"
    using Suc.prems by (simp add: be_value_snoc unat_byte_of_int)
  also have "\<dots> = ((v div 256) mod 256 ^ n) * 256 + v mod 256"
    by (simp only: Suc.IH [OF d])
  also have "\<dots> = v mod 256 ^ Suc n"
    using zmod_zmult2_eq [of "256 ^ n" v 256] by simp
  finally show ?case .
qed

lemma be_value_be_bytes_nat:
  assumes "x < 256 ^ n"
  shows "be_value (be_bytes n (int x)) = x"
proof -
  have "int (be_value (be_bytes n (int x))) = int x mod 256 ^ n"
    by (rule be_value_be_bytes) simp
  also have "\<dots> = int x" using assms by (simp add: zmod_int [symmetric])
  finally show ?thesis by simp
qed

section \<open>Byte-wise order\<close>

lemma bytes_less_append_same: "bytes_less (p @ x) (p @ y) = bytes_less x y"
  by (induction p) auto

lemma bytes_less_append_left:
  "length p = length q \<Longrightarrow> bytes_less p q \<Longrightarrow> bytes_less (p @ x) (q @ y)"
proof (induction p q rule: bytes_less.induct)
  case (4 a p b q)
  then show ?case by auto
qed auto

lemma byte_of_int_less:
  assumes "0 \<le> x" "x mod 256 < y mod 256"
  shows "(word_of_int x :: byte) < word_of_int y"
proof -
  have "nat (x mod 256) < nat (y mod 256)" using assms by simp
  then show ?thesis by (simp add: word_less_nat_alt unat_byte_of_int)
qed

lemma be_bytes_mono:
  "0 \<le> x \<Longrightarrow> x < y \<Longrightarrow> y < 256 ^ n \<Longrightarrow> bytes_less (be_bytes n x) (be_bytes n y)"
proof (induction n arbitrary: x y)
  case 0
  then show ?case by simp
next
  case (Suc n)
  have le: "x div 256 \<le> y div 256" using Suc.prems(2) by (simp add: zdiv_mono1)
  show ?case
  proof (cases "x div 256 < y div 256")
    case True
    have "0 \<le> x div 256" using Suc.prems(1) by simp
    moreover have "y div 256 < 256 ^ n" using Suc.prems(3) by simp
    ultimately have "bytes_less (be_bytes n (x div 256)) (be_bytes n (y div 256))"
      using True by (intro Suc.IH)
    then show ?thesis by (simp add: bytes_less_append_left)
  next
    case False
    with le have eq: "x div 256 = y div 256" by simp
    have "x mod 256 < y mod 256"
      using Suc.prems(2) eq by presburger
    then have "(word_of_int x :: byte) < word_of_int y"
      using Suc.prems(1) by (rule byte_of_int_less [rotated])
    then show ?thesis by (simp add: eq bytes_less_append_same)
  qed
qed

lemma be_bytes_1: "be_bytes 1 v = [word_of_int v]"
  by (simp add: One_nat_def)

lemma length_encodePayload [simp]: "length (encodePayload kv t nd s) = 11"
  by (simp add: encodePayload_def)


lemma div_mod_lex:
  assumes "0 < k" "(x::nat) < y"
  shows "x div k < y div k \<or> (x div k = y div k \<and> x mod k < y mod k)"
proof -
  have "x div k \<le> y div k" using assms by (simp add: div_le_mono)
  moreover have "x mod k < y mod k" if "x div k = y div k"
    using assms(2) that by (metis add_less_cancel_left mult_div_mod_eq)
  ultimately show ?thesis by linarith
qed

lemma hi_bound: "t \<le> MAX_TIMESTAMP \<Longrightarrow> t div 0x10000 < 256 ^ 4"
  by (simp add: MAX_TIMESTAMP_def div_less_iff_less_mult)

lemma lo_bound: "(t::nat) mod 0x10000 < 256 ^ 2"
  by simp

lemma int_hi_lo:
  "int t div 0x10000 = int (t div 0x10000)" "int t mod 0x10000 = int (t mod 0x10000)"
  by (simp_all add: zdiv_int zmod_int)

lemma be_bytes_mono_nat:
  assumes "x < y" "y < 256 ^ n"
  shows "bytes_less (be_bytes n (int x)) (be_bytes n (int y))"
proof -
  have "int y < int (256 ^ n)" using assms(2) by (simp only: of_nat_less_iff)
  then have "int y < 256 ^ n" by simp
  moreover have "int x < int y" using assms(1) by simp
  ultimately show ?thesis by (intro be_bytes_mono) simp_all
qed

lemma encodePayload_split:
  "encodePayload kv t nd s @ x =
     [word_of_int kv] @ be_bytes 4 (int (t div 0x10000)) @ be_bytes 2 (int (t mod 0x10000))
       @ be_bytes 2 nd @ be_bytes 2 (int s) @ x"
  by (simp only: encodePayload_def be_bytes_1 int_hi_lo append_assoc)

lemma parsed_encodePayload:
  assumes "t \<le> MAX_TIMESTAMP" "s \<le> MAX_SEQUENCE"
  shows "parsed_timestamp (encodePayload kv t nd s @ x) = t"
    and "parsed_sequence (encodePayload kv t nd s @ x) = s"
proof -
  let ?hi = "t div 0x10000" and ?lo = "t mod 0x10000"
  have s: "s < 256 ^ 2" using assms(2) by (simp add: MAX_SEQUENCE_def)
  have "getUint 4 (encodePayload kv t nd s @ x) 1 = ?hi"
    unfolding encodePayload_split getUint_def
    using be_value_be_bytes_nat [OF hi_bound [OF assms(1)]] by simp
  moreover have "getUint 2 (encodePayload kv t nd s @ x) 5 = ?lo"
    unfolding encodePayload_split getUint_def
    using be_value_be_bytes_nat [OF lo_bound [of t]] by simp
  ultimately show "parsed_timestamp (encodePayload kv t nd s @ x) = t"
    by (simp only: parsed_timestamp_def div_mult_mod_eq)
  show "parsed_sequence (encodePayload kv t nd s @ x) = s"
    unfolding encodePayload_split parsed_sequence_def getUint_def
    using be_value_be_bytes_nat [OF s] by simp
qed

lemma encodePayload_first:
  assumes "0 \<le> kv" "kv \<le> 255"
  shows "uint ((encodePayload kv t nd s @ x) ! 0) = kv"
  unfolding encodePayload_split using assms by (simp add: uint_word_of_int take_bit_eq_mod)

lemma minted_pair:
  assumes "minted kv nd p b"
  shows "embedded_pair b = p" "length b = 18"
  using assms by (auto simp: minted_def embedded_pair_def parsed_encodePayload)

lemma encodePayload_mono:
  assumes "pair_lt (t1, s1) (t2, s2)" "t2 \<le> MAX_TIMESTAMP" "s2 \<le> MAX_SEQUENCE"
  shows "bytes_less (encodePayload kv t1 nd s1 @ x) (encodePayload kv t2 nd s2 @ y)"
proof -
  let ?hi1 = "t1 div 0x10000" and ?lo1 = "t1 mod 0x10000"
  let ?hi2 = "t2 div 0x10000" and ?lo2 = "t2 mod 0x10000"
  have s2: "s2 < 256 ^ 2" using assms(3) by (simp add: MAX_SEQUENCE_def)
  from assms(1) have "t1 < t2 \<or> (t1 = t2 \<and> s1 < s2)" by (simp add: pair_lt_def)
  then consider (hi) "?hi1 < ?hi2" | (lo) "?hi1 = ?hi2" "?lo1 < ?lo2" | (sq) "t1 = t2" "s1 < s2"
    using div_mod_lex [of "0x10000" t1 t2] by auto
  then show ?thesis
  proof cases
    case hi
    have "bytes_less (be_bytes 4 (int ?hi1)) (be_bytes 4 (int ?hi2))"
      using hi hi_bound [OF assms(2)] by (rule be_bytes_mono_nat)
    then show ?thesis
      unfolding encodePayload_split bytes_less_append_same
      by (intro bytes_less_append_left) simp_all
  next
    case lo
    have "bytes_less (be_bytes 2 (int ?lo1)) (be_bytes 2 (int ?lo2))"
      using lo(2) lo_bound by (rule be_bytes_mono_nat)
    then show ?thesis
      unfolding encodePayload_split lo(1) bytes_less_append_same
      by (intro bytes_less_append_left) simp_all
  next
    case sq
    have "bytes_less (be_bytes 2 (int s1)) (be_bytes 2 (int s2))"
      using sq(2) s2 by (rule be_bytes_mono_nat)
    then show ?thesis
      unfolding encodePayload_split sq(1) bytes_less_append_same
      by (intro bytes_less_append_left) simp_all
  qed
qed

lemma minted_less:
  assumes "minted kv nd p b" "minted kv nd q c" "pair_lt p q"
  shows "bytes_less b c"
proof -
  from assms(1) obtain x where b: "b = encodePayload kv (fst p) nd (snd p) @ x"
    and p: "snd p \<le> MAX_SEQUENCE" by (auto simp: minted_def)
  from assms(2) obtain y where c: "c = encodePayload kv (fst q) nd (snd q) @ y"
    and q: "fst q \<le> MAX_TIMESTAMP" "snd q \<le> MAX_SEQUENCE" by (auto simp: minted_def)
  have "pair_lt (fst p, snd p) (fst q, snd q)" using assms(3) by simp
  from encodePayload_mono [OF this q(1) q(2)] show ?thesis unfolding b c .
qed

lemma pair_lt_trans: "pair_lt p q \<Longrightarrow> pair_lt q r \<Longrightarrow> pair_lt p r"
  by (auto simp: pair_lt_def)

section \<open>The clock and sequence state machine\<close>

lemma wait_loop_result:
  assumes "wait_loop clk since deadline i j = Some y"
  shows "\<forall>now. fst y = Inr now \<longrightarrow> since < now"
  using assms
  by (rule wait_loop.raw_induct
        [where P = "\<lambda>clk since deadline i j y. \<forall>now. fst y = Inr now \<longrightarrow> since < now", rotated])
     (auto simp: Let_def split: if_splits)

lemma wait_loop_advances:
  "wait_loop clk since deadline i j = Some (Inr now, i', j') \<Longrightarrow> since < now"
  using wait_loop_result [of clk since deadline i j "(Inr now, i', j')"] by simp

lemma nextTimestampAndSequence_step:
  assumes "nextTimestampAndSequence clk g w = Some (r, g1, w1)"
  shows "pair_lt (gen_pair g) (gen_pair g1)"
    and "r = Inr (t, s) \<Longrightarrow> (t, s) = gen_pair g1 \<and> s \<le> MAX_SEQUENCE"
  using assms wait_loop_advances
  by (auto simp: nextTimestampAndSequence_def waitForNextMillisecond_def Let_def gen_pair_def
      pair_lt_def MAX_SEQUENCE_def split: if_splits option.splits sum.splits prod.splits)

section \<open>What a successful mint returns\<close>

lemma validateConfig_ok:
  assumes "validateConfig c = Inr u"
  shows "\<exists>kv k. cfg_keyVersion c = JInt kv \<and> 0 \<le> kv \<and> kv \<le> 255 \<and> cfg_secret c = Some k \<and> 32 \<le> length k"
  using assms
  by (auto simp: validateConfig_def MAX_UINT8_def split: jsnum.splits option.splits if_splits)

lemma sign_ok:
  assumes "sign hmac (Some p) (Some k) = Inr sg"
  shows "sg = take 7 (hmac k p)" "7 \<le> length (hmac k p)" "length sg = 7"
  using assms
  by (auto simp: sign_def validatePayload_def validateSecret_def SIGNATURE_BYTES_def Let_def
      split: if_splits)

lemma verify_own_signature:
  assumes "1 \<le> length p" "32 \<le> length k" "7 \<le> length (hmac k p)"
  shows "verify hmac (Some p) (Some (take 7 (hmac k p))) (Some k) = Inr True"
  using assms
  by (auto simp add: sign_def verify_def validatePayload_def validateSecret_def
      timingSafeEqual_def SIGNATURE_BYTES_def MIN_SECRET_BYTES_def MIN_PAYLOAD_BYTES_def Let_def)

lemma VIDValue_new_ok:
  assumes "VIDValue_new h (Some a) = Inr v"
  shows "binary v = a" "length (h ! a) = 18" "encode (Some (h ! a)) = Inr (the (cachedString v))"
    "cachedString v \<noteq> None"
  using assms
  by (auto simp: VIDValue_new_def VID_BYTE_LENGTH_def split: if_splits sum.splits)

lemma generate_state:
  assumes "generate sha hmac clk c g w = Some (r, g1, w1)"
  shows "gen_pair g1 = gen_pair g \<or> pair_lt (gen_pair g) (gen_pair g1)"
proof (cases "nextTimestampAndSequence clk g w")
  case None
  with assms show ?thesis
    by (auto simp: generate_def split: sum.splits)
next
  case (Some x)
  obtain r' g' w' where x: "x = (r', g', w')" by (cases x) auto
  from nextTimestampAndSequence_step(1) [of clk g w r' g' w'] Some x
  have lt: "pair_lt (gen_pair g) (gen_pair g')" by simp
  from assms Some x have "g1 = g \<or> g1 = g'"
    by (auto simp: generate_def Let_def split: sum.splits if_splits prod.splits)
  with lt show ?thesis by auto
qed

lemma generate_success:
  assumes gen: "generate sha hmac clk c g w = Some (Inr v, g1, w1)"
  obtains kv k nd where "cfg_keyVersion c = JInt kv" "0 \<le> kv" "kv \<le> 255"
    "cfg_secret c = Some k" "32 \<le> length k" "resolveNodeId sha (cfg_nodeId c) = Inr nd"
    "pair_lt (gen_pair g) (gen_pair g1)"
    "lastTimestamp g1 \<le> MAX_TIMESTAMP" "sequence g1 \<le> MAX_SEQUENCE"
    "7 \<le> length (hmac k (encodePayload kv (lastTimestamp g1) nd (sequence g1)))"
    "heap w1 ! binary v = encodePayload kv (lastTimestamp g1) nd (sequence g1)
        @ take 7 (hmac k (encodePayload kv (lastTimestamp g1) nd (sequence g1)))"
    "encode (Some (heap w1 ! binary v)) = Inr (the (cachedString v))" "cachedString v \<noteq> None"
proof -
  from gen obtain u where vc: "validateConfig c = Inr u"
    by (cases "validateConfig c") (auto simp: generate_def)
  from validateConfig_ok [OF vc] obtain kv k where
    c: "cfg_keyVersion c = JInt kv" "0 \<le> kv" "kv \<le> 255" "cfg_secret c = Some k" "32 \<le> length k"
    by blast
  from gen vc obtain nd where nd: "resolveNodeId sha (cfg_nodeId c) = Inr nd"
    by (cases "resolveNodeId sha (cfg_nodeId c)") (auto simp: generate_def)
  from gen vc nd obtain x where nx: "nextTimestampAndSequence clk g w = Some x"
    by (cases "nextTimestampAndSequence clk g w") (auto simp: generate_def)
  obtain r' g' w' where x: "x = (r', g', w')" by (cases x) auto
  from gen vc nd nx x obtain t s where r': "r' = Inr (t, s)"
    by (cases r') (auto simp: generate_def)
  note nts = nx [unfolded x r']
  from nextTimestampAndSequence_step [OF nts] have
    lt: "pair_lt (gen_pair g) (gen_pair g')" and ts: "(t, s) = gen_pair g'" "s \<le> MAX_SEQUENCE"
    by simp_all
  let ?p = "encodePayload kv t nd s"
  from gen vc nd nts have tmax: "t \<le> MAX_TIMESTAMP"
    by (auto simp: generate_def split: if_splits)
  from gen vc nd nts tmax c obtain sg where sg: "sign hmac (Some ?p) (Some k) = Inr sg"
    by (cases "sign hmac (Some ?p) (Some k)") (auto simp: generate_def jsnum_value_def Let_def)
  note so = sign_ok [OF sg]
  from gen vc nd nts tmax c sg so(3) have
    res: "VIDValue_new (heap w' @ [?p @ sg]) (Some (length (heap w'))) = Inr v"
      "g1 = g'" "heap w1 = heap w' @ [?p @ sg]"
    by (auto simp: generate_def jsnum_value_def Let_def alloc_def ByteUtils_concat_def
        SIGNATURE_BYTES_def split: sum.splits)
  from VIDValue_new_ok [OF res(1)] have
    v: "binary v = length (heap w')" "encode (Some (?p @ sg)) = Inr (the (cachedString v))"
       "cachedString v \<noteq> None"
    by simp_all
  have b: "heap w1 ! binary v = ?p @ sg" by (simp add: res(3) v(1))
  from ts have g': "lastTimestamp g' = t" "sequence g' = s" by (simp_all add: gen_pair_def)
  show ?thesis
    using c nd lt tmax ts(2) so(1,2) b v(2,3)
    by (intro that [of kv k nd]) (simp_all add: res(2) g')
qed

section \<open>Monotonic uniqueness\<close>

lemma toBinary_read: "toBinary h v = (a, h1) \<Longrightarrow> h1 ! a = h ! binary v"
  by (auto simp: toBinary_def alloc_def)

lemma generate_all_sorted:
  assumes "generate_all sha hmac clk cfgs g w = Some (outs, g2, w2)"
    and "\<forall>c\<in>set cfgs. cfg_keyVersion c = kvj \<and> cfg_nodeId c = nid"
  shows "(\<forall>b\<in>set (returned outs).
            minted (jsnum_value kvj) (projr (resolveNodeId sha nid)) (embedded_pair b) b
            \<and> pair_lt (gen_pair g) (embedded_pair b))
         \<and> sorted_wrt pair_lt (map embedded_pair (returned outs))
         \<and> sorted_wrt bytes_less (returned outs)"
  using assms
proof (induction cfgs arbitrary: g w outs)
  case Nil
  then show ?case by simp
next
  case (Cons c cfgs)
  let ?kv = "jsnum_value kvj" and ?nd = "projr (resolveNodeId sha nid)"
  from Cons.prems(2) have c: "cfg_keyVersion c = kvj" "cfg_nodeId c = nid"
    and rest: "\<forall>c\<in>set cfgs. cfg_keyVersion c = kvj \<and> cfg_nodeId c = nid" by simp_all
  from Cons.prems(1) obtain r g1 w1 where gen: "generate sha hmac clk c g w = Some (r, g1, w1)"
    by (auto split: option.splits)
  let ?ow = "case r of Inl e \<Rightarrow> (Inl e, w1)
              | Inr v \<Rightarrow> (let (a, h1) = toBinary (heap w1) v in (Inr (h1 ! a), w1\<lparr>heap := h1\<rparr>))"
  obtain out w1' where ow: "?ow = (out, w1')" by (cases ?ow) auto
  from Cons.prems(1) gen ow obtain outs' where
    run: "generate_all sha hmac clk cfgs g1 w1' = Some (outs', g2, w2)" and outs: "outs = out # outs'"
    by (auto split: option.splits)
  note IH = Cons.IH [OF run rest]
  from generate_state [OF gen] have mono: "gen_pair g1 = gen_pair g \<or> pair_lt (gen_pair g) (gen_pair g1)" .
  have above: "\<forall>b\<in>set (returned outs'). pair_lt (gen_pair g) (embedded_pair b)"
    using IH mono pair_lt_trans by metis
  show ?case
  proof (cases r)
    case (Inl e)
    with ow have "out = Inl e" by simp
    then show ?thesis using IH above outs by simp
  next
    case (Inr v)
    let ?b = "heap w1 ! binary v"
    from ow Inr have out: "out = Inr ?b"
      by (auto simp: Let_def toBinary_read split: prod.splits)
    from gen Inr have gen': "generate sha hmac clk c g w = Some (Inr v, g1, w1)" by simp
    from gen' c have m: "minted ?kv ?nd (gen_pair g1) ?b" and lt: "pair_lt (gen_pair g) (gen_pair g1)"
      by (auto elim!: generate_success simp: minted_def jsnum_value_def gen_pair_def)
    from minted_pair [OF m] have p: "embedded_pair ?b = gen_pair g1" by simp
    have "\<forall>b'\<in>set (returned outs'). bytes_less ?b b'"
      using IH m p minted_less by metis
    then show ?thesis using IH above outs out m lt p by simp
  qed
qed

text \<open>
  C2.  In a run of successive \<open>generate\<close> calls on one generator, all with the same
  keyVersion and nodeId, the (timestamp, sequence) pairs embedded in the identifiers that
  are returned are strictly increasing in call order, the 18-byte binaries are strictly
  increasing in byte-wise order, and each has 18 bytes.  This holds for every clock, so in
  particular for one whose readings never decrease, and for every state the generator
  starts in.
\<close>

theorem C2_monotonic_uniqueness:
  assumes "generate_all sha hmac clk cfgs g w = Some (outs, g2, w2)"
    and "\<forall>c\<in>set cfgs. cfg_keyVersion c = kv \<and> cfg_nodeId c = nid"
  shows "sorted_wrt pair_lt (map embedded_pair (returned outs))
         \<and> sorted_wrt bytes_less (returned outs)
         \<and> (\<forall>b\<in>set (returned outs). length b = 18)"
  using generate_all_sorted [OF assms] minted_pair(2) by blast

section \<open>A concrete run\<close>

lemma VIDValue_new_18:
  assumes "length (h ! a) = 18"
  shows "VIDValue_new h (Some a) = Inr \<lparr>binary = a, cachedString = Some (projr (encode (Some (h ! a))))\<rparr>"
proof -
  from roundtrip_bytes [OF assms] obtain s where "encode (Some (h ! a)) = Inr s" by blast
  then show ?thesis using assms by (simp add: VIDValue_new_def VID_BYTE_LENGTH_def)
qed

lemma nts_new_millisecond:
  assumes "lastTimestamp g < TimeUtils_now clk (ticks w)"
  shows "nextTimestampAndSequence clk g w
     = Some (Inr (TimeUtils_now clk (ticks w), 0),
             \<lparr>lastTimestamp = TimeUtils_now clk (ticks w), sequence = 0\<rparr>,
             w\<lparr>ticks := ticks w + 1\<rparr>)"
  using assms by (simp add: nextTimestampAndSequence_def Let_def)

lemma nts_same_millisecond:
  assumes "TimeUtils_now clk (ticks w) \<le> lastTimestamp g" "sequence g < MAX_SEQUENCE"
  shows "nextTimestampAndSequence clk g w
     = Some (Inr (lastTimestamp g, sequence g + 1),
             \<lparr>lastTimestamp = lastTimestamp g, sequence = sequence g + 1\<rparr>,
             w\<lparr>ticks := ticks w + 1\<rparr>)"
  using assms by (auto simp add: nextTimestampAndSequence_def Let_def)

lemma be_bytes_2: "be_bytes 2 v = [word_of_int (v div 256), word_of_int v]"
  by (simp add: numeral_2_eq_2)

lemma be_bytes_4:
  "be_bytes 4 v = [word_of_int (v div 256 div 256 div 256), word_of_int (v div 256 div 256),
     word_of_int (v div 256), word_of_int v]"
  by (simp add: eval_nat_numeral)

lemma node_a: "resolveNodeId toy_sha (NodeString ''node-a'') = Inr 28271"
proof -
  have t: "trim ''node-a'' = ''node-a''" by (simp add: trim_def is_white_space_def charCode_def)
  have d: "toy_sha ''node-a'' = [110, 111, 100, 101, 45, 97] @ replicate 26 0"
    by (simp add: toy_sha_def)
  have "hashToUint16 toy_sha ''node-a'' = 28271"
    by (subst hashToUint16_value) (simp_all add: d)
  then show ?thesis by (simp add: resolveNodeId_def t)
qed

lemma byte_28271: "(28271 :: byte) = 111"
  by simp

lemma length_toy_hmac: "length (toy_hmac k p) = min 32 (min (length k) (length p + 32))"
  by (simp add: toy_hmac_def)

lemma toy_digests:
  "take 7 (toy_hmac (replicate 32 7) [1, 0, 0, 0, 0, 0, 7, 110, 111, 0, 0]) = [6, 7, 7, 7, 7, 7, 0]"
  "take 7 (toy_hmac (replicate 32 7) [1, 0, 0, 0, 0, 0, 7, 110, 111, 0, 1]) = [6, 7, 7, 7, 7, 7, 0]"
  "take 7 (toy_hmac (replicate 32 7) [1, 0, 0, 0, 0, 0, 8, 110, 111, 0, 0]) = [6, 7, 7, 7, 7, 7, 15]"
  by (simp_all add: toy_hmac_def eval_nat_numeral)

lemmas demo_eval =
  generate_def validateConfig_def MAX_UINT8_def cfg_demo_def node_a
  nts_new_millisecond nts_same_millisecond clk_demo_def MAX_TIMESTAMP_def MAX_SEQUENCE_def
  encodePayload_def be_bytes_1 be_bytes_2 be_bytes_4 byte_28271 jsnum_value_def sign_def
  validatePayload_def validateSecret_def MIN_PAYLOAD_BYTES_def MIN_SECRET_BYTES_def
  SIGNATURE_BYTES_def length_toy_hmac toy_digests Let_def alloc_def ByteUtils_concat_def
  VIDValue_new_18 toBinary_def

lemma demo_first:
  "generate toy_sha toy_hmac clk_demo cfg_demo \<lparr>lastTimestamp = 0, sequence = 0\<rparr>
      \<lparr>heap = [], ticks = 0, dticks = 0\<rparr>
   = Some (Inr \<lparr>binary = 0, cachedString = Some (projr (encode (Some
        [1, 0, 0, 0, 0, 0, 7, 110, 111, 0, 0, 6, 7, 7, 7, 7, 7, 0])))\<rparr>,
      \<lparr>lastTimestamp = 7, sequence = 0\<rparr>,
      \<lparr>heap = [[1, 0, 0, 0, 0, 0, 7, 110, 111, 0, 0, 6, 7, 7, 7, 7, 7, 0]], ticks = 1, dticks = 0\<rparr>)"
  by (simp add: demo_eval)

lemma demo_run:
  "generate_all toy_sha toy_hmac clk_demo [cfg_demo, cfg_demo, cfg_demo]
      \<lparr>lastTimestamp = 0, sequence = 0\<rparr> \<lparr>heap = [], ticks = 0, dticks = 0\<rparr>
     = Some ([Inr [1, 0, 0, 0, 0, 0, 7, 110, 111, 0, 0, 6, 7, 7, 7, 7, 7, 0],
              Inr [1, 0, 0, 0, 0, 0, 7, 110, 111, 0, 1, 6, 7, 7, 7, 7, 7, 0],
              Inr [1, 0, 0, 0, 0, 0, 8, 110, 111, 0, 0, 6, 7, 7, 7, 7, 7, 15]],
             \<lparr>lastTimestamp = 8, sequence = 0\<rparr>,
             \<lparr>heap = [[1, 0, 0, 0, 0, 0, 7, 110, 111, 0, 0, 6, 7, 7, 7, 7, 7, 0],
                       [1, 0, 0, 0, 0, 0, 7, 110, 111, 0, 0, 6, 7, 7, 7, 7, 7, 0],
                       [1, 0, 0, 0, 0, 0, 7, 110, 111, 0, 1, 6, 7, 7, 7, 7, 7, 0],
                       [1, 0, 0, 0, 0, 0, 7, 110, 111, 0, 1, 6, 7, 7, 7, 7, 7, 0],
                       [1, 0, 0, 0, 0, 0, 8, 110, 111, 0, 0, 6, 7, 7, 7, 7, 7, 15],
                       [1, 0, 0, 0, 0, 0, 8, 110, 111, 0, 0, 6, 7, 7, 7, 7, 7, 15]],
               ticks = 3, dticks = 0\<rparr>)"
  by (simp add: demo_eval)

theorem C2_monotonic_uniqueness_witness:
  "returned [Inr [1, 0, 0, 0, 0, 0, 7, 110, 111, 0, 0, 6, 7, 7, 7, 7, 7, 0],
             Inr [1, 0, 0, 0, 0, 0, 7, 110, 111, 0, 1, 6, 7, 7, 7, 7, 7, 0],
             Inr [1, 0, 0, 0, 0, 0, 8, 110, 111, 0, 0, 6, 7, 7, 7, 7, 7, 15]]
     = [[1, 0, 0, 0, 0, 0, 7, 110, 111, 0, 0, 6, 7, 7, 7, 7, 7, 0],
        [1, 0, 0, 0, 0, 0, 7, 110, 111, 0, 1, 6, 7, 7, 7, 7, 7, 0],
        [1, 0, 0, 0, 0, 0, 8, 110, 111, 0, 0, 6, 7, 7, 7, 7, 7, 15]]
   \<and> sorted_wrt bytes_less
        [[1, 0, 0, 0, 0, 0, 7, 110, 111, 0, 0, 6, 7, 7, 7, 7, 7, 0],
         [1, 0, 0, 0, 0, 0, 7, 110, 111, 0, 1, 6, 7, 7, 7, 7, 7, 0],
         [1, 0, 0, 0, 0, 0, 8, 110, 111, 0, 0, 6, 7, 7, 7, 7, 7, 15]]
   \<and> sorted_wrt pair_lt (map embedded_pair
        [[1, 0, 0, 0, 0, 0, 7, 110, 111, 0, 0, 6, 7, 7, 7, 7, 7, 0],
         [1, 0, 0, 0, 0, 0, 7, 110, 111, 0, 1, 6, 7, 7, 7, 7, 7, 0],
         [1, 0, 0, 0, 0, 0, 8, 110, 111, 0, 0, 6, 7, 7, 7, 7, 7, 15]])"
proof -
  have same: "\<forall>c\<in>set [cfg_demo, cfg_demo, cfg_demo].
      cfg_keyVersion c = JInt 1 \<and> cfg_nodeId c = NodeString ''node-a''"
    by (simp add: cfg_demo_def)
  from C2_monotonic_uniqueness [OF demo_run same] show ?thesis by simp
qed

section \<open>Key rotation\<close>

lemma validateKeys_nonempty: "validateKeys keys = Inr u \<Longrightarrow> keys \<noteq> []"
  by (auto simp: validateKeys_def split: if_splits)

lemma verifyDetailed_binary:
  assumes keys: "validateKeys keys = Inr ()"
    and norm: "normalizeToBinary h input = Inr (p @ take 7 (hmac k p))"
    and p: "length p = 11" and k: "32 \<le> length k" and d: "7 \<le> length (hmac k p)"
    and first: "uint ((p @ take 7 (hmac k p)) ! 0) = kv"
  shows "(map_of keys (JInt kv) = Some k \<longrightarrow> verifyDetailed hmac h input keys = Inr Valid)
     \<and> (map_of keys (JInt kv) = None \<longrightarrow>
           verifyDetailed hmac h input keys = Inr (Invalid UNKNOWN_KEY_VERSION))"
proof -
  have v: "verify hmac (Some p) (Some (take 7 (hmac k p))) (Some k) = Inr True"
    using p k d by (intro verify_own_signature) simp_all
  have ne: "k \<noteq> []" using k by auto
  show ?thesis
    using keys norm p ne d first v
    by (simp add: verifyDetailed_def VID_BYTE_LENGTH_def PAYLOAD_END_def SIGNATURE_BYTES_def)
qed

lemma minted_normalize:
  assumes len: "length b = 18" and h: "h ! binary v = b" and enc: "encode (Some b) = Inr s"
    and input: "input \<in> {InVIDValue v, InUint8Array b, InString s}"
  shows "normalizeToBinary h input = Inr b"
proof -
  from roundtrip_bytes [OF len] enc have s: "length s = 29" "\<forall>c\<in>set s. in_class_AZ27 c"
    "decode (Some s) = Inr b" by auto
  have n: "toUpperCase (trim s) = s" using s(2) by (rule normalize_class)
  have r: "BASE32_REGEX s" using s(1,2) by (simp add: BASE32_REGEX_def regex_AZ27_def list_all_iff)
  from input consider "input = InVIDValue v" | "input = InUint8Array b" | "input = InString s"
    by auto
  then show ?thesis
  proof cases
    case 1
    then show ?thesis by (simp add: normalizeToBinary_def toBinary_def alloc_def h)
  next
    case 2
    then show ?thesis by (simp add: normalizeToBinary_def)
  next
    case 3
    then show ?thesis by (simp add: normalizeToBinary_def n r s(1,3) VID_STRING_LENGTH_def)
  qed
qed

lemma validateKeys_entries_error:
  "validateKeys_entries keys = Inl e \<Longrightarrow> e = RangeError \<or> e = TypeError"
  by (induct keys rule: validateKeys_entries.induct) (auto split: jsnum.splits if_splits)

lemma validateKeys_error:
  "validateKeys keys = Inl e \<Longrightarrow> e = RangeError \<or> e = TypeError"
  using validateKeys_entries_error [of keys e] by (auto simp: validateKeys_def split: if_splits)

text \<open>
  C5, amended.  Take an identifier that \<open>generate\<close> returned under keyVersion \<open>kv\<close> and
  secret \<open>k\<close>, in any of its forms: the \<open>VIDValue\<close>, its 18 bytes, or its string.  Byte 0
  of the binary is \<open>kv\<close>.  With a keyset that \<open>validateKeys\<close> accepts, \<open>verifyDetailed\<close>
  returns valid when the keyset maps \<open>kv\<close> to \<open>k\<close>, whatever else it holds, and
  \<open>UNKNOWN_KEY_VERSION\<close> when the keyset has no entry for \<open>kv\<close>.  With a keyset that
  \<open>validateKeys\<close> rejects, \<open>verifyDetailed\<close> throws the error of \<open>validateKeys\<close>, a
  \<open>RangeError\<close> or a \<open>TypeError\<close>, whatever the input is.
\<close>

theorem C5_key_rotation_amended:
  "(generate sha hmac clk config g w = Some (Inr v, g', w')
      \<and> cfg_keyVersion config = JInt kv \<and> cfg_secret config = Some k
      \<and> toString (heap w') v = Inr (s, v')
      \<and> validateKeys keys = Inr ()
      \<and> input \<in> {InVIDValue v, InUint8Array (heap w' ! binary v), InString s}
    \<longrightarrow> uint ((heap w' ! binary v) ! 0) = kv
     \<and> (map_of keys (JInt kv) = Some k \<longrightarrow> verifyDetailed hmac (heap w') input keys = Inr Valid)
     \<and> (map_of keys (JInt kv) = None \<longrightarrow>
           verifyDetailed hmac (heap w') input keys = Inr (Invalid UNKNOWN_KEY_VERSION)))
   \<and> (validateKeys keys' = Inl e
    \<longrightarrow> verifyDetailed hmac' h' input' keys' = Inl e \<and> (e = RangeError \<or> e = TypeError))"
proof (rule conjI; rule impI)
  assume e: "validateKeys keys' = Inl e"
  then have "verifyDetailed hmac' h' input' keys' = Inl e" by (simp add: verifyDetailed_def)
  moreover from e have "e = RangeError \<or> e = TypeError" by (rule validateKeys_error)
  ultimately show "verifyDetailed hmac' h' input' keys' = Inl e \<and> (e = RangeError \<or> e = TypeError)"
    by (rule conjI)
next
  assume a: "generate sha hmac clk config g w = Some (Inr v, g', w')
      \<and> cfg_keyVersion config = JInt kv \<and> cfg_secret config = Some k
      \<and> toString (heap w') v = Inr (s, v')
      \<and> validateKeys keys = Inr ()
      \<and> input \<in> {InVIDValue v, InUint8Array (heap w' ! binary v), InString s}"
  then have mint: "generate sha hmac clk config g w = Some (Inr v, g', w')"
    and kv: "cfg_keyVersion config = JInt kv" and secret: "cfg_secret config = Some k"
    and str: "toString (heap w') v = Inr (s, v')"
    and keys: "validateKeys keys = Inr ()"
    and input: "input \<in> {InVIDValue v, InUint8Array (heap w' ! binary v), InString s}"
    by simp_all
  from mint obtain kv' k' nd where
    f: "cfg_keyVersion config = JInt kv'" "0 \<le> kv'" "kv' \<le> 255"
      "cfg_secret config = Some k'" "32 \<le> length k'"
      "7 \<le> length (hmac k' (encodePayload kv' (lastTimestamp g') nd (sequence g')))"
      "heap w' ! binary v = encodePayload kv' (lastTimestamp g') nd (sequence g')
          @ take 7 (hmac k' (encodePayload kv' (lastTimestamp g') nd (sequence g')))"
      "encode (Some (heap w' ! binary v)) = Inr (the (cachedString v))" "cachedString v \<noteq> None"
    by (rule generate_success)
  from f(1,4) kv secret have eq: "kv' = kv" "k' = k" by simp_all
  let ?p = "encodePayload kv (lastTimestamp g') nd (sequence g')"
  let ?b = "heap w' ! binary v"
  have b: "?b = ?p @ take 7 (hmac k ?p)" using f(7) eq by simp
  have len: "length ?b = 18" using f(6) eq by (simp add: b)
  have first: "uint ((?p @ take 7 (hmac k ?p)) ! 0) = kv"
    using f(2,3) eq by (intro encodePayload_first) simp_all
  from str f(9) have "s = the (cachedString v)"
    by (auto simp: toString_def split: option.splits)
  with f(8) have enc: "encode (Some ?b) = Inr s" by simp
  have norm: "normalizeToBinary (heap w') input = Inr ?b"
    using len _ enc input by (rule minted_normalize) simp
  have "(map_of keys (JInt kv) = Some k \<longrightarrow> verifyDetailed hmac (heap w') input keys = Inr Valid)
     \<and> (map_of keys (JInt kv) = None \<longrightarrow>
           verifyDetailed hmac (heap w') input keys = Inr (Invalid UNKNOWN_KEY_VERSION))"
  proof (rule verifyDetailed_binary [where p = ?p])
    show "validateKeys keys = Inr ()" by fact
    show "normalizeToBinary (heap w') input = Inr (?p @ take 7 (hmac k ?p))" using norm b by simp
    show "length ?p = 11" by simp
    show "32 \<le> length k" using f(5) eq by simp
    show "7 \<le> length (hmac k ?p)" using f(6) eq by simp
    show "uint ((?p @ take 7 (hmac k ?p)) ! 0) = kv" by fact
  qed
  with first show "uint ((heap w' ! binary v) ! 0) = kv
     \<and> (map_of keys (JInt kv) = Some k \<longrightarrow> verifyDetailed hmac (heap w') input keys = Inr Valid)
     \<and> (map_of keys (JInt kv) = None \<longrightarrow>
           verifyDetailed hmac (heap w') input keys = Inr (Invalid UNKNOWN_KEY_VERSION))"
    unfolding b by simp
qed

lemma encode_demo:
  "encode (Some [1, 0, 0, 0, 0, 0, 7, 110, 111, 0, 0, 6, 7, 7, 7, 7, 7, 0])
     = Inr ''AEAAAAAAAADW43YAAADAOBYHA4DQA''"
  by code_simp

lemma demo_mint:
  "generate toy_sha toy_hmac clk_demo cfg_demo \<lparr>lastTimestamp = 0, sequence = 0\<rparr>
      \<lparr>heap = [], ticks = 0, dticks = 0\<rparr>
   = Some (Inr \<lparr>binary = 0, cachedString = Some ''AEAAAAAAAADW43YAAADAOBYHA4DQA''\<rparr>,
      \<lparr>lastTimestamp = 7, sequence = 0\<rparr>,
      \<lparr>heap = [[1, 0, 0, 0, 0, 0, 7, 110, 111, 0, 0, 6, 7, 7, 7, 7, 7, 0]], ticks = 1, dticks = 0\<rparr>)"
  using demo_first by (simp add: encode_demo)

text \<open>
  C5, as stated, fails on keysets that \<open>validateKeys\<close> rejects: for the identifier minted
  under keyVersion 1 in the demo run, the empty keyset, which has no entry for version 1,
  makes \<open>verifyDetailed\<close> throw a \<open>RangeError\<close> instead of returning
  \<open>UNKNOWN_KEY_VERSION\<close>, and a keyset that maps version 1 to the minting secret and
  version 2 to a 16-byte secret makes it throw as well instead of returning valid.
\<close>

theorem C5_key_rotation_counterexample:
  "generate toy_sha toy_hmac clk_demo cfg_demo \<lparr>lastTimestamp = 0, sequence = 0\<rparr>
      \<lparr>heap = [], ticks = 0, dticks = 0\<rparr>
   = Some (Inr \<lparr>binary = 0, cachedString = Some ''AEAAAAAAAADW43YAAADAOBYHA4DQA''\<rparr>,
      \<lparr>lastTimestamp = 7, sequence = 0\<rparr>,
      \<lparr>heap = [[1, 0, 0, 0, 0, 0, 7, 110, 111, 0, 0, 6, 7, 7, 7, 7, 7, 0]], ticks = 1, dticks = 0\<rparr>)
   \<and> map_of ([] :: keymap) (JInt 1) = None
   \<and> verifyDetailed toy_hmac [[1, 0, 0, 0, 0, 0, 7, 110, 111, 0, 0, 6, 7, 7, 7, 7, 7, 0]]
        (InVIDValue \<lparr>binary = 0, cachedString = Some ''AEAAAAAAAADW43YAAADAOBYHA4DQA''\<rparr>) []
       = Inl RangeError
   \<and> map_of [(JInt 1, replicate 32 7), (JInt 2, replicate 16 8)] (JInt 1) = Some (replicate 32 7)
   \<and> verifyDetailed toy_hmac [[1, 0, 0, 0, 0, 0, 7, 110, 111, 0, 0, 6, 7, 7, 7, 7, 7, 0]]
        (InVIDValue \<lparr>binary = 0, cachedString = Some ''AEAAAAAAAADW43YAAADAOBYHA4DQA''\<rparr>)
        [(JInt 1, replicate 32 7), (JInt 2, replicate 16 8)]
       = Inl RangeError"
  using demo_mint by (simp add: verifyDetailed_def validateKeys_def)

theorem C5_key_rotation_amended_witness:
  "verifyDetailed toy_hmac [[1, 0, 0, 0, 0, 0, 7, 110, 111, 0, 0, 6, 7, 7, 7, 7, 7, 0]]
        (InVIDValue \<lparr>binary = 0, cachedString = Some ''AEAAAAAAAADW43YAAADAOBYHA4DQA''\<rparr>)
        [(JInt 1, replicate 32 7), (JInt 2, replicate 32 8)]
     = Inr Valid
   \<and> verifyDetailed toy_hmac [[1, 0, 0, 0, 0, 0, 7, 110, 111, 0, 0, 6, 7, 7, 7, 7, 7, 0]]
        (InString ''AEAAAAAAAADW43YAAADAOBYHA4DQA'')
        [(JInt 1, replicate 32 7), (JInt 2, replicate 32 8)]
     = Inr Valid
   \<and> verifyDetailed toy_hmac [[1, 0, 0, 0, 0, 0, 7, 110, 111, 0, 0, 6, 7, 7, 7, 7, 7, 0]]
        (InVIDValue \<lparr>binary = 0, cachedString = Some ''AEAAAAAAAADW43YAAADAOBYHA4DQA''\<rparr>)
        [(JInt 2, replicate 32 8)]
     = Inr (Invalid UNKNOWN_KEY_VERSION)
   \<and> verifyDetailed toy_hmac [] InNull [(JInt 1, [])] = Inl TypeError
   \<and> verifyDetailed toy_hmac [] (InString ''AEAAAAAAAADW43YAAADAOBYHA4DQA'') [(JInt 256, replicate 32 7)]
     = Inl RangeError"
proof -
  let ?v = "\<lparr>binary = 0, cachedString = Some ''AEAAAAAAAADW43YAAADAOBYHA4DQA''\<rparr>"
  let ?h = "[[1, 0, 0, 0, 0, 0, 7, 110, 111, 0, 0, 6, 7, 7, 7, 7, 7, 0]] :: heap"
  have kv: "cfg_keyVersion cfg_demo = JInt 1" and sec: "cfg_secret cfg_demo = Some (replicate 32 7)"
    by (simp_all add: cfg_demo_def)
  have str: "toString ?h ?v = Inr (''AEAAAAAAAADW43YAAADAOBYHA4DQA'', ?v)"
    by (simp add: toString_def)
  have k12: "validateKeys [(JInt 1, replicate 32 7), (JInt 2, replicate 32 8)] = Inr ()"
    and k2: "validateKeys [(JInt 2, replicate 32 8)] = Inr ()"
    and kt: "validateKeys [(JInt 1, [])] = Inl TypeError"
    and kr: "validateKeys [(JInt 256, replicate 32 7)] = Inl RangeError"
    by (simp_all add: validateKeys_def)
  let ?s = "''AEAAAAAAAADW43YAAADAOBYHA4DQA''"
  let ?k12 = "[(JInt 1, replicate 32 7), (JInt 2, replicate 32 8)] :: keymap"
  let ?k2 = "[(JInt 2, replicate 32 8)] :: keymap"
  let ?g0 = "\<lparr>lastTimestamp = 0, sequence = 0\<rparr>"
  let ?g1 = "\<lparr>lastTimestamp = 7, sequence = 0\<rparr>"
  let ?w0 = "\<lparr>heap = [], ticks = 0, dticks = 0\<rparr>"
  let ?w1 = "\<lparr>heap = ?h, ticks = 1, dticks = 0\<rparr>"
  have 1: "verifyDetailed toy_hmac ?h (InVIDValue ?v) ?k12 = Inr Valid"
    using C5_key_rotation_amended [where sha = toy_sha and hmac = toy_hmac and clk = clk_demo
        and config = cfg_demo and g = ?g0 and w = ?w0 and v = ?v and g' = ?g1 and w' = ?w1
        and kv = 1 and k = "replicate 32 7" and s = ?s and v' = ?v and keys = ?k12
        and input = "InVIDValue ?v"] demo_mint kv sec str k12
    by simp
  have 2: "verifyDetailed toy_hmac ?h (InString ?s) ?k12 = Inr Valid"
    using C5_key_rotation_amended [where sha = toy_sha and hmac = toy_hmac and clk = clk_demo
        and config = cfg_demo and g = ?g0 and w = ?w0 and v = ?v and g' = ?g1 and w' = ?w1
        and kv = 1 and k = "replicate 32 7" and s = ?s and v' = ?v and keys = ?k12
        and input = "InString ?s"] demo_mint kv sec str k12
    by simp
  have 3: "verifyDetailed toy_hmac ?h (InVIDValue ?v) ?k2 = Inr (Invalid UNKNOWN_KEY_VERSION)"
    using C5_key_rotation_amended [where sha = toy_sha and hmac = toy_hmac and clk = clk_demo
        and config = cfg_demo and g = ?g0 and w = ?w0 and v = ?v and g' = ?g1 and w' = ?w1
        and kv = 1 and k = "replicate 32 7" and s = ?s and v' = ?v and keys = ?k2
        and input = "InVIDValue ?v"] demo_mint kv sec str k2
    by simp
  have 4: "verifyDetailed toy_hmac [] InNull [(JInt 1, [])] = Inl TypeError"
    using C5_key_rotation_amended [where keys' = "[(JInt 1, [])]" and e = TypeError
        and hmac' = toy_hmac and h' = "[]" and input' = InNull] kt
    by simp
  have 5: "verifyDetailed toy_hmac [] (InString ?s) [(JInt 256, replicate 32 7)] = Inl RangeError"
    using C5_key_rotation_amended [where keys' = "[(JInt 256, replicate 32 7)]" and e = RangeError
        and hmac' = toy_hmac and h' = "[]" and input' = "InString ?s"] kr
    by simp
  from 1 2 3 4 5 show ?thesis by simp
qed

end
